theory Spec2Isabelle
  imports Main "HOL-Library.Word"
begin

unbundle bit_operations_syntax

section \<open>Data model\<close>

text \<open>
  The two failure kinds raised by \<^verbatim>\<open>huffman.c\<close> through \<^verbatim>\<open>aws_raise_error\<close>.  A C
  function returning \<^verbatim>\<open>AWS_OP_SUCCESS\<close> is modelled by \<open>Inr ()\<close>, one returning the
  value of \<^verbatim>\<open>aws_raise_error e\<close> by \<open>Inl e\<close>.
\<close>

datatype aws_error = AWS_ERROR_SHORT_BUFFER | AWS_ERROR_COMPRESSION_UNKNOWN_SYMBOL

text \<open>\<^verbatim>\<open>struct aws_huffman_code\<close>: a \<^verbatim>\<open>uint32_t\<close> pattern and a \<^verbatim>\<open>uint8_t\<close> bit count.\<close>

record aws_huffman_code =
  pattern :: "32 word"
  num_bits :: "8 word"

text \<open>
  \<^verbatim>\<open>struct aws_huffman_symbol_coder\<close>: the two function pointers, with the opaque
  \<^verbatim>\<open>userdata\<close> argument closed over.  The decoder function returns the number of bits
  read and writes the symbol through a pointer: the model returns the pair
  (bits read, symbol).
\<close>

record aws_huffman_symbol_coder =
  encode :: "8 word \<Rightarrow> aws_huffman_code"
  decode :: "32 word \<Rightarrow> 8 word \<times> 8 word"

text \<open>\<^verbatim>\<open>struct aws_huffman_encoder\<close>.\<close>

record aws_huffman_encoder =
  coder :: aws_huffman_symbol_coder
  eos_padding :: "8 word"
  overflow_bits :: aws_huffman_code

text \<open>
  \<^verbatim>\<open>struct aws_huffman_decoder\<close>.  Its fields \<^verbatim>\<open>coder\<close> and \<^verbatim>\<open>num_bits\<close> carry the suffix
  \<open>_d\<close>, the names without it being the encoder's and the code's.
\<close>

record aws_huffman_decoder =
  coder_d :: aws_huffman_symbol_coder
  working_bits :: "64 word"
  num_bits_d :: "8 word"

text \<open>
  Modelled from the spec: the byte buffer and the byte cursor of aws-c-common, which this
  repository only calls.  A buffer is append-only with a fixed capacity; its \<^verbatim>\<open>len\<close> is
  the length of the list of bytes written so far.  A cursor is the list of bytes not yet
  read; reading a byte removes the head.
\<close>

record aws_byte_buf =
  buffer :: "8 word list"
  capacity :: nat

definition aws_byte_buf_write_u8 :: "aws_byte_buf \<Rightarrow> 8 word \<Rightarrow> bool \<times> aws_byte_buf" where
  "aws_byte_buf_write_u8 buf c =
     (if length (buffer buf) + 1 > capacity buf then (False, buf)
      else (True, buf\<lparr>buffer := buffer buf @ [c]\<rparr>))"

text \<open>\<^verbatim>\<open>struct encoder_state\<close>, the parameter block of the bit-packing helper.\<close>

record encoder_state =
  encoder :: aws_huffman_encoder
  output_buf :: aws_byte_buf
  working :: "8 word"
  bit_pos :: "8 word"

section \<open>Initialisation and reset\<close>

definition aws_huffman_encoder_init :: "aws_huffman_symbol_coder \<Rightarrow> aws_huffman_encoder" where
  "aws_huffman_encoder_init c =
     \<lparr>coder = c, eos_padding = 255, overflow_bits = \<lparr>pattern = 0, num_bits = 0\<rparr>\<rparr>"

definition aws_huffman_encoder_reset :: "aws_huffman_encoder \<Rightarrow> aws_huffman_encoder" where
  "aws_huffman_encoder_reset enc =
     (let eos = eos_padding enc in (aws_huffman_encoder_init (coder enc))\<lparr>eos_padding := eos\<rparr>)"

definition aws_huffman_decoder_init :: "aws_huffman_symbol_coder \<Rightarrow> aws_huffman_decoder" where
  "aws_huffman_decoder_init c = \<lparr>coder_d = c, working_bits = 0, num_bits_d = 0\<rparr>"

definition aws_huffman_decoder_reset :: "aws_huffman_decoder \<Rightarrow> aws_huffman_decoder" where
  "aws_huffman_decoder_reset dec = aws_huffman_decoder_init (coder_d dec)"

section \<open>Encoder\<close>

text \<open>
  The \<^verbatim>\<open>while (bits_to_write > 0)\<close> loop of \<^verbatim>\<open>encode_write_bit_pattern\<close>.  All counters
  are \<^verbatim>\<open>uint8_t\<close> and wrap as 8-bit words; the pattern is shifted as a \<^verbatim>\<open>uint32_t\<close>.  The
  shift amounts are the C expressions read as naturals (C leaves a shift by 32 or more
  undefined; the loop never asks for one while \<open>1 \<le> bit_pos \<le> 8\<close> and the code has at
  most 32 bits).  The return value of \<^verbatim>\<open>aws_byte_buf_write_u8\<close> is dropped, as in the
  source.
\<close>

function encode_write_bit_pattern_loop ::
  "aws_huffman_code \<Rightarrow> 8 word \<Rightarrow> encoder_state \<Rightarrow> (aws_error + unit) \<times> encoder_state" where
  "encode_write_bit_pattern_loop bit_pattern bits_to_write state =
     (if bits_to_write > 0 then
        let bits_for_current = (if bits_to_write > bit_pos state then bit_pos state else bits_to_write);
            bits_to_cut = (32 - num_bits bit_pattern) + (num_bits bit_pattern - bits_to_write);
            state1 = state\<lparr>working := working state OR
                       ucast (drop_bit (32 - unat (bit_pos state))
                                (push_bit (unat bits_to_cut) (pattern bit_pattern)))\<rparr>;
            bits_to_write' = bits_to_write - bits_for_current;
            state2 = state1\<lparr>bit_pos := bit_pos state1 - bits_for_current\<rparr>
        in if bit_pos state2 = 0 then
             let state3 = state2\<lparr>output_buf :=
                            snd (aws_byte_buf_write_u8 (output_buf state2) (working state2))\<rparr>;
                 state4 = state3\<lparr>bit_pos := 8, working := 0\<rparr>
             in if length (buffer (output_buf state4)) = capacity (output_buf state4) then
                  let bits_to_cut' = bits_to_cut + bits_for_current;
                      ovf = (overflow_bits (encoder state4))\<lparr>num_bits := bits_to_write'\<rparr>;
                      ovf' = (if bits_to_write' \<noteq> 0
                              then ovf\<lparr>pattern := drop_bit (32 - unat bits_to_write')
                                       (push_bit (unat bits_to_cut') (pattern bit_pattern))\<rparr>
                              else ovf)
                  in (Inl AWS_ERROR_SHORT_BUFFER,
                      state4\<lparr>encoder := (encoder state4)\<lparr>overflow_bits := ovf'\<rparr>\<rparr>)
                else encode_write_bit_pattern_loop bit_pattern bits_to_write' state4
           else encode_write_bit_pattern_loop bit_pattern bits_to_write' state2
      else (Inr (), state))"
  by pat_completeness auto
termination
proof (relation "measure (\<lambda>(bit_pattern, bits_to_write, state).
          2 * unat bits_to_write + (if bit_pos state = 0 then 1 else 0))", goal_cases)
  case 1
  show ?case by simp
next
  case (2 bit_pattern bits_to_write state x xa xb xc xd xe xf)
  then show ?case
    by (auto simp: word_gt_0 unat_sub word_le_nat_alt word_less_nat_alt unat_gt_0 split: if_splits)
next
  case (3 bit_pattern bits_to_write state x xa xb xc xd)
  then show ?case
    by (auto simp: word_gt_0 unat_sub word_le_nat_alt word_less_nat_alt unat_gt_0 split: if_splits)
qed

definition encode_write_bit_pattern ::
  "encoder_state \<Rightarrow> aws_huffman_code \<Rightarrow> (aws_error + unit) \<times> encoder_state" where
  "encode_write_bit_pattern state bit_pattern =
     (if num_bits bit_pattern = 0 then (Inl AWS_ERROR_COMPRESSION_UNKNOWN_SYMBOL, state)
      else encode_write_bit_pattern_loop bit_pattern (num_bits bit_pattern) state)"

text \<open>
  \<^verbatim>\<open>aws_huffman_get_encoded_length\<close>.  The accumulator is a \<^verbatim>\<open>size_t\<close>, modelled by a
  natural number (a cursor cannot hold enough symbols to wrap it).  The function reads
  the encoder through its pointer and writes nothing, so the model returns the length
  alone.  The entry assertions (\<^verbatim>\<open>AWS_PRECONDITION\<close>, \<^verbatim>\<open>AWS_ASSERT\<close>) are debug checks of
  the caller's obligations and are not part of the model.
\<close>

fun aws_huffman_get_encoded_length_loop :: "aws_huffman_encoder \<Rightarrow> 8 word list \<Rightarrow> nat \<Rightarrow> nat" where
  "aws_huffman_get_encoded_length_loop enc [] nbits = nbits"
| "aws_huffman_get_encoded_length_loop enc (new_byte # to_encode) nbits =
     (let code_point = encode (coder enc) new_byte
      in aws_huffman_get_encoded_length_loop enc to_encode (nbits + unat (num_bits code_point)))"

definition aws_huffman_get_encoded_length :: "aws_huffman_encoder \<Rightarrow> 8 word list \<Rightarrow> nat" where
  "aws_huffman_get_encoded_length enc to_encode =
     (let nbits = aws_huffman_get_encoded_length_loop enc to_encode 0;
          len = nbits div 8
      in if nbits mod 8 \<noteq> 0 then len + 1 else len)"

text \<open>
  The \<^verbatim>\<open>while (to_encode->len)\<close> loop of \<^verbatim>\<open>aws_huffman_encode\<close> with the
  \<^verbatim>\<open>CHECK_WRITE_BITS\<close> macro expanded: the symbol is read from the cursor before its code
  is written, so an early return leaves the cursor behind that symbol.
\<close>

fun aws_huffman_encode_loop ::
  "encoder_state \<Rightarrow> 8 word list \<Rightarrow> (aws_error + unit) \<times> encoder_state \<times> 8 word list" where
  "aws_huffman_encode_loop state [] = (Inr (), state, [])"
| "aws_huffman_encode_loop state (new_byte # to_encode) =
     (let code_point = encode (coder (encoder state)) new_byte
      in case encode_write_bit_pattern state code_point of
           (Inl e, state') \<Rightarrow> (Inl e, state', to_encode)
         | (Inr u, state') \<Rightarrow> aws_huffman_encode_loop state' to_encode)"

text \<open>
  The end of \<^verbatim>\<open>aws_huffman_encode\<close>: when the last byte is partly filled, a code made of
  \<^verbatim>\<open>eos_padding\<close> with \<^verbatim>\<open>bit_pos\<close> bits is written and the helper's result is dropped.
\<close>

definition aws_huffman_encode_eos :: "encoder_state \<Rightarrow> encoder_state" where
  "aws_huffman_encode_eos state =
     (if bit_pos state \<noteq> 8 then
        let eos_cp = \<lparr>pattern = ucast (eos_padding (encoder state)), num_bits = bit_pos state\<rparr>
        in snd (encode_write_bit_pattern state eos_cp)
      else state)"

text \<open>
  The part of \<^verbatim>\<open>aws_huffman_encode\<close> that writes the bits left over from the previous
  invocation and then clears them (\<^verbatim>\<open>AWS_ZERO_STRUCT\<close>).
\<close>

definition aws_huffman_encode_overflow :: "encoder_state \<Rightarrow> (aws_error + unit) \<times> encoder_state" where
  "aws_huffman_encode_overflow state =
     (if num_bits (overflow_bits (encoder state)) \<noteq> 0 then
        (case encode_write_bit_pattern state (overflow_bits (encoder state)) of
           (Inl e, state') \<Rightarrow> (Inl e, state')
         | (Inr u, state') \<Rightarrow>
             (Inr (), state'\<lparr>encoder := (encoder state')\<lparr>overflow_bits := \<lparr>pattern = 0, num_bits = 0\<rparr>\<rparr>\<rparr>))
      else (Inr (), state))"

text \<open>
  \<^verbatim>\<open>aws_huffman_encode\<close>.  The result is the return code with the encoder, the cursor and
  the output buffer as the call leaves them; the local \<^verbatim>\<open>working\<close> byte and \<^verbatim>\<open>bit_pos\<close>
  are not part of it.
\<close>

definition aws_huffman_encode ::
  "aws_huffman_encoder \<Rightarrow> 8 word list \<Rightarrow> aws_byte_buf \<Rightarrow>
     (aws_error + unit) \<times> aws_huffman_encoder \<times> 8 word list \<times> aws_byte_buf" where
  "aws_huffman_encode enc to_encode output =
     (if length (buffer output) = capacity output then
        (Inl AWS_ERROR_SHORT_BUFFER, enc, to_encode, output)
      else
        let state = \<lparr>encoder = enc, output_buf = output, working = 0, bit_pos = 8\<rparr>
        in case aws_huffman_encode_overflow state of
             (Inl e, state1) \<Rightarrow> (Inl e, encoder state1, to_encode, output_buf state1)
           | (Inr u, state1) \<Rightarrow>
               (case aws_huffman_encode_loop state1 to_encode of
                  (Inl e, state2, rest) \<Rightarrow> (Inl e, encoder state2, rest, output_buf state2)
                | (Inr u, state2, rest) \<Rightarrow>
                    let state3 = aws_huffman_encode_eos state2
                    in (Inr (), encoder state3, rest, output_buf state3)))"

section \<open>Decoder\<close>

text \<open>
  \<^verbatim>\<open>decode_fill_working_bits\<close>: while fewer than 32 bits are buffered and the cursor has
  a byte, the byte is shifted in below the valid bits of the 64-bit accumulator.
\<close>

fun decode_fill_working_bits ::
  "aws_huffman_decoder \<Rightarrow> 8 word list \<Rightarrow> aws_huffman_decoder \<times> 8 word list" where
  "decode_fill_working_bits decoder [] = (decoder, [])"
| "decode_fill_working_bits decoder (new_byte # input_cursor) =
     (if num_bits_d decoder < 32 then
        let positioned = push_bit (64 - 8 - unat (num_bits_d decoder)) (ucast new_byte :: 64 word)
        in decode_fill_working_bits
             (decoder\<lparr>working_bits := working_bits decoder OR positioned,
                      num_bits_d := num_bits_d decoder + 8\<rparr>) input_cursor
      else (decoder, new_byte # input_cursor))"

text \<open>
  The \<^verbatim>\<open>while (1)\<close> loop of \<^verbatim>\<open>aws_huffman_decode\<close>.  \<^verbatim>\<open>bits_left\<close> is a \<^verbatim>\<open>size_t\<close>,
  modelled by a natural number; \<^verbatim>\<open>num_bits\<close> is a \<^verbatim>\<open>uint8_t\<close> and its subtraction wraps.
  Every iteration either returns or lowers \<^verbatim>\<open>bits_left\<close>, which is the termination
  measure.
\<close>

function aws_huffman_decode_loop ::
  "aws_huffman_decoder \<Rightarrow> 8 word list \<Rightarrow> aws_byte_buf \<Rightarrow> nat \<Rightarrow>
     (aws_error + unit) \<times> aws_huffman_decoder \<times> 8 word list \<times> aws_byte_buf" where
  "aws_huffman_decode_loop decoder to_decode output bits_left =
     (let (decoder1, to_decode1) = decode_fill_working_bits decoder to_decode;
          (bits_read, symbol) =
             decode (coder_d decoder1) (ucast (drop_bit (64 - 32) (working_bits decoder1)))
      in if bits_read = 0 then
           (if bits_left < 32 then (Inr (), decoder1, to_decode1, output)
            else (Inl AWS_ERROR_COMPRESSION_UNKNOWN_SYMBOL, decoder1, to_decode1, output))
         else if unat bits_read > bits_left then (Inr (), decoder1, to_decode1, output)
         else if length (buffer output) = capacity output then
           (Inl AWS_ERROR_SHORT_BUFFER, decoder1, to_decode1, output)
         else
           let bits_left' = bits_left - unat bits_read;
               decoder2 = decoder1\<lparr>working_bits := push_bit (unat bits_read) (working_bits decoder1),
                                   num_bits_d := num_bits_d decoder1 - bits_read\<rparr>;
               output' = snd (aws_byte_buf_write_u8 output symbol)
           in if bits_left' = 0 then (Inr (), decoder2, to_decode1, output')
              else aws_huffman_decode_loop decoder2 to_decode1 output' bits_left')"
  by pat_completeness auto
termination
proof (relation "measure (\<lambda>(decoder, to_decode, output, bits_left). bits_left)", goal_cases)
  case 1
  show ?case by simp
next
  case (2 decoder to_decode out bits_left x xa y xb xc ya xd xe xf)
  then show ?case
    by (simp add: unat_gt_0)
qed

text \<open>\<^verbatim>\<open>aws_huffman_decode\<close>: the entry guard, the budget of bits and the loop.\<close>

definition aws_huffman_decode ::
  "aws_huffman_decoder \<Rightarrow> 8 word list \<Rightarrow> aws_byte_buf \<Rightarrow>
     (aws_error + unit) \<times> aws_huffman_decoder \<times> 8 word list \<times> aws_byte_buf" where
  "aws_huffman_decode decoder to_decode output =
     (if length (buffer output) = capacity output then
        (Inl AWS_ERROR_SHORT_BUFFER, decoder, to_decode, output)
      else
        let bits_left = unat (num_bits_d decoder) + length to_decode * 8
        in aws_huffman_decode_loop decoder to_decode output bits_left)"

definition word_bits :: "nat \<Rightarrow> 'a::len word \<Rightarrow> bool list" where
  "word_bits n w = map (\<lambda>i. bit w (n - 1 - i)) [0..<n]"

definition stream_bits :: "8 word list \<Rightarrow> bool list" where
  "stream_bits bytes = concat (map (word_bits 8) bytes)"

definition code_bits :: "aws_huffman_code \<Rightarrow> bool list" where
  "code_bits c = word_bits (unat (num_bits c)) (pattern c)"

definition est_bits :: "encoder_state \<Rightarrow> bool list" where
  "est_bits st = stream_bits (buffer (output_buf st)) @
                 take (8 - unat (bit_pos st)) (word_bits 8 (working st))"

definition est_inv :: "encoder_state \<Rightarrow> bool" where
  "est_inv st \<longleftrightarrow> 1 \<le> unat (bit_pos st) \<and> unat (bit_pos st) \<le> 8 \<and>
                take_bit (unat (bit_pos st)) (working st) = 0 \<and>
                length (buffer (output_buf st)) < capacity (output_buf st)"

definition wr_post :: "encoder_state \<Rightarrow> bool list \<Rightarrow> (aws_error + unit) \<times> encoder_state \<Rightarrow> bool" where
  "wr_post st bs res =
     (case res of
        (Inr u, st') \<Rightarrow>
          est_inv st' \<and> est_bits st' = est_bits st @ bs \<and> encoder st' = encoder st \<and>
          capacity (output_buf st') = capacity (output_buf st)
      | (Inl e, st') \<Rightarrow>
          e = AWS_ERROR_SHORT_BUFFER \<and>
          length (buffer (output_buf st')) = capacity (output_buf st') \<and>
          capacity (output_buf st') = capacity (output_buf st) \<and>
          stream_bits (buffer (output_buf st')) @ code_bits (overflow_bits (encoder st')) =
            est_bits st @ bs \<and>
          unat (num_bits (overflow_bits (encoder st'))) \<le> length bs \<and>
          coder (encoder st') = coder (encoder st) \<and>
          eos_padding (encoder st') = eos_padding (encoder st))"

definition abc_encode :: "8 word \<Rightarrow> aws_huffman_code" where
  "abc_encode s = (if s = 0x41 then \<lparr>pattern = 0, num_bits = 1\<rparr>
                   else if s = 0x42 then \<lparr>pattern = 2, num_bits = 2\<rparr>
                   else if s = 0x43 then \<lparr>pattern = 6, num_bits = 3\<rparr>
                   else \<lparr>pattern = 0, num_bits = 0\<rparr>)"

definition abc_decode :: "32 word \<Rightarrow> 8 word \<times> 8 word" where
  "abc_decode w = (if \<not> bit w 31 then (1, 0x41)
                   else if \<not> bit w 30 then (2, 0x42)
                   else if \<not> bit w 29 then (3, 0x43)
                   else (0, 0))"

definition abc_coder :: aws_huffman_symbol_coder where
  "abc_coder = \<lparr>encode = abc_encode, decode = abc_decode\<rparr>"

inductive decoder_reachable :: "aws_huffman_symbol_coder \<Rightarrow> aws_huffman_decoder \<Rightarrow> bool"
  for c :: aws_huffman_symbol_coder where
  init: "decoder_reachable c (aws_huffman_decoder_init c)"
| reset: "decoder_reachable c d \<Longrightarrow> decoder_reachable c (aws_huffman_decoder_reset d)"
| call: "decoder_reachable c d \<Longrightarrow> aws_huffman_decode d to_decode out = (r, d', rest, out') \<Longrightarrow>
         decoder_reachable c d'"


definition seq_bits :: "aws_huffman_symbol_coder \<Rightarrow> 8 word list \<Rightarrow> bool list" where
  "seq_bits c seq = concat (map (\<lambda>s. code_bits (encode c s)) seq)"

definition codes_ok :: "aws_huffman_symbol_coder \<Rightarrow> 8 word list \<Rightarrow> bool" where
  "codes_ok c seq \<longleftrightarrow> (\<forall>s \<in> set seq. num_bits (encode c s) \<noteq> 0 \<and> unat (num_bits (encode c s)) \<le> 32)"

definition loop_post ::
  "encoder_state \<Rightarrow> 8 word list \<Rightarrow> (aws_error + unit) \<times> encoder_state \<times> 8 word list \<Rightarrow> bool" where
  "loop_post st seq res =
     (case res of
        (Inr u, st', rest) \<Rightarrow>
          rest = [] \<and> est_inv st' \<and>
          est_bits st' = est_bits st @ seq_bits (coder (encoder st)) seq \<and>
          encoder st' = encoder st \<and>
          capacity (output_buf st') = capacity (output_buf st)
      | (Inl e, st', rest) \<Rightarrow>
          e = AWS_ERROR_SHORT_BUFFER \<and>
          length (buffer (output_buf st')) = capacity (output_buf st') \<and>
          capacity (output_buf st') = capacity (output_buf st) \<and>
          stream_bits (buffer (output_buf st')) @ code_bits (overflow_bits (encoder st')) @
              seq_bits (coder (encoder st)) rest =
            est_bits st @ seq_bits (coder (encoder st)) seq \<and>
          unat (num_bits (overflow_bits (encoder st'))) \<le> 32 \<and>
          set rest \<subseteq> set seq \<and>
          coder (encoder st') = coder (encoder st) \<and>
          eos_padding (encoder st') = eos_padding (encoder st))"

definition eos_pad_len :: "nat \<Rightarrow> nat" where
  "eos_pad_len n = (8 - n mod 8) mod 8"

definition pending_bits :: "aws_huffman_encoder \<Rightarrow> 8 word list \<Rightarrow> bool list" where
  "pending_bits enc seq = code_bits (overflow_bits enc) @ seq_bits (coder enc) seq"

definition call_post ::
  "aws_huffman_encoder \<Rightarrow> 8 word list \<Rightarrow> aws_byte_buf \<Rightarrow>
   (aws_error + unit) \<times> aws_huffman_encoder \<times> 8 word list \<times> aws_byte_buf \<Rightarrow> bool" where
  "call_post enc seq out res =
     (case res of
        (Inr u, enc', rest, out') \<Rightarrow>
          rest = [] \<and> capacity out' = capacity out \<and>
          coder enc' = coder enc \<and> eos_padding enc' = eos_padding enc \<and>
          num_bits (overflow_bits enc') = 0 \<and>
          (\<exists>bytes. buffer out' = buffer out @ bytes \<and>
             stream_bits bytes = pending_bits enc seq @
               word_bits (eos_pad_len (length (pending_bits enc seq))) (eos_padding enc))
      | (Inl e, enc', rest, out') \<Rightarrow>
          e = AWS_ERROR_SHORT_BUFFER \<and>
          length (buffer out') = capacity out' \<and> capacity out' = capacity out \<and>
          coder enc' = coder enc \<and> eos_padding enc' = eos_padding enc \<and>
          unat (num_bits (overflow_bits enc')) \<le> 32 \<and> set rest \<subseteq> set seq \<and>
          (\<exists>bytes. buffer out' = buffer out @ bytes \<and>
             stream_bits bytes @ pending_bits enc' rest = pending_bits enc seq))"

fun encode_resume :: "aws_huffman_encoder \<Rightarrow> 8 word list \<Rightarrow> nat list \<Rightarrow> 8 word list option" where
  "encode_resume enc to_encode [] = None"
| "encode_resume enc to_encode (cap # caps) =
     (case aws_huffman_encode enc to_encode \<lparr>buffer = [], capacity = cap\<rparr> of
        (Inr u, enc', rest, out) \<Rightarrow> Some (buffer out)
      | (Inl AWS_ERROR_SHORT_BUFFER, enc', rest, out) \<Rightarrow>
          map_option (\<lambda>bytes. buffer out @ bytes) (encode_resume enc' rest caps)
      | (Inl AWS_ERROR_COMPRESSION_UNKNOWN_SYMBOL, enc', rest, out) \<Rightarrow> None)"


text \<open>
  Stated from the words of claim C3: the pad pattern taken from the most significant bit
  of \<^verbatim>\<open>eos_padding\<close> downward, \<open>k\<close> bits of it.
\<close>

definition eos_high_order_bits :: "nat \<Rightarrow> 8 word \<Rightarrow> bool list" where
  "eos_high_order_bits k eos = take k (word_bits 8 eos)"

definition dec_bits :: "aws_huffman_decoder \<Rightarrow> 8 word list \<Rightarrow> bool list" where
  "dec_bits d c = take (unat (num_bits_d d)) (word_bits 64 (working_bits d)) @ stream_bits c"

definition dec_inv :: "aws_huffman_decoder \<Rightarrow> bool" where
  "dec_inv d \<longleftrightarrow> unat (num_bits_d d) \<le> 39 \<and>
               take_bit (64 - unat (num_bits_d d)) (working_bits d) = 0"

definition prefix_code_for :: "aws_huffman_symbol_coder \<Rightarrow> 8 word \<Rightarrow> bool" where
  "prefix_code_for c s \<longleftrightarrow>
     num_bits (encode c s) \<noteq> 0 \<and> unat (num_bits (encode c s)) \<le> 32 \<and>
     (\<forall>w. take (unat (num_bits (encode c s))) (word_bits 32 w) = code_bits (encode c s) \<longrightarrow>
          decode c w = (num_bits (encode c s), s))"

text \<open>
  The decoder on the stream of pending bits.  \<open>window_of\<close> is the 32-bit window over a list
  of bits, zero filled; \<open>decode_bits\<close> is the loop of \<^verbatim>\<open>aws_huffman_decode\<close> on the list of
  bits that are buffered or still in the cursor, its length being \<^verbatim>\<open>bits_left\<close>.
\<close>

definition window_of :: "bool list \<Rightarrow> 32 word" where
  "window_of P = horner_sum of_bool 2 (rev (take 32 (P @ replicate 32 False)))"

function decode_bits ::
  "aws_huffman_symbol_coder \<Rightarrow> bool list \<Rightarrow> aws_byte_buf \<Rightarrow>
     (aws_error + unit) \<times> bool list \<times> aws_byte_buf" where
  "decode_bits c P out =
     (let (bits_read, symbol) = decode c (window_of P)
      in if bits_read = 0 then
           (if length P < 32 then (Inr (), P, out)
            else (Inl AWS_ERROR_COMPRESSION_UNKNOWN_SYMBOL, P, out))
         else if unat bits_read > length P then (Inr (), P, out)
         else if length (buffer out) = capacity out then (Inl AWS_ERROR_SHORT_BUFFER, P, out)
         else decode_bits c (drop (unat bits_read) P) (snd (aws_byte_buf_write_u8 out symbol)))"
  by pat_completeness auto
termination
proof (relation "measure (\<lambda>(c, P, out). length P)", goal_cases)
  case 1
  show ?case by simp
next
  case (2 c P out x xa y)
  then have "0 < unat xa" and "unat xa \<le> length P" by (simp_all add: unat_gt_0)
  then show ?case by simp
qed

text \<open>
  The result of \<^verbatim>\<open>decode\<close> is determined by the bits it reports as read: it reads at most
  32 bits, and every window that agrees with a matching window on the bits read gives the
  same result.
\<close>

definition decode_determined :: "aws_huffman_symbol_coder \<Rightarrow> bool" where
  "decode_determined c \<longleftrightarrow>
     (\<forall>w. unat (fst (decode c w)) \<le> 32) \<and>
     (\<forall>w w'. fst (decode c w) \<noteq> 0 \<and>
              take (unat (fst (decode c w))) (word_bits 32 w') =
                take (unat (fst (decode c w))) (word_bits 32 w) \<longrightarrow>
              decode c w' = decode c w)"

text \<open>
  A caller that feeds the input to \<^verbatim>\<open>aws_huffman_decode\<close> chunk by chunk, with the same
  decoder and output buffer, and stops at the first call that fails.  For a coder that
  reads at most 32 bits, a call that returns success has consumed its whole chunk (lemma
  \<open>decode_call_refines\<close>), so no input is lost between two calls.
\<close>

fun decode_chunks ::
  "aws_huffman_decoder \<Rightarrow> 8 word list list \<Rightarrow> aws_byte_buf \<Rightarrow>
     (aws_error + unit) \<times> aws_huffman_decoder \<times> aws_byte_buf" where
  "decode_chunks decoder [] out = (Inr (), decoder, out)"
| "decode_chunks decoder (chunk # chunks) out =
     (case aws_huffman_decode decoder chunk out of
        (Inr u, decoder', rest, out') \<Rightarrow> decode_chunks decoder' chunks out'
      | (Inl e, decoder', rest, out') \<Rightarrow> (Inl e, decoder', out'))"

text \<open>
  A coder whose \<^verbatim>\<open>decode\<close> looks one bit past the code it reports: \<^verbatim>\<open>0\<close> is \<^verbatim>\<open>0x42\<close>,
  \<^verbatim>\<open>11\<close> is \<^verbatim>\<open>0x43\<close>, and \<^verbatim>\<open>1\<close> followed by \<^verbatim>\<open>0\<close> is \<^verbatim>\<open>0x41\<close> with one bit read.
\<close>

definition lookahead_encode :: "8 word \<Rightarrow> aws_huffman_code" where
  "lookahead_encode s = (if s = 0x41 then \<lparr>pattern = 1, num_bits = 1\<rparr>
                         else if s = 0x42 then \<lparr>pattern = 0, num_bits = 1\<rparr>
                         else if s = 0x43 then \<lparr>pattern = 3, num_bits = 2\<rparr>
                         else \<lparr>pattern = 0, num_bits = 0\<rparr>)"

definition lookahead_decode :: "32 word \<Rightarrow> 8 word \<times> 8 word" where
  "lookahead_decode w = (if \<not> bit w 31 then (1, 0x42)
                         else if bit w 30 then (2, 0x43)
                         else (1, 0x41))"

definition lookahead_coder :: aws_huffman_symbol_coder where
  "lookahead_coder = \<lparr>encode = lookahead_encode, decode = lookahead_decode\<rparr>"

text \<open>
  The table of the worked example of the specification: \<^verbatim>\<open>0x41\<close> is \<^verbatim>\<open>0\<close>, \<^verbatim>\<open>0x42\<close> is
  \<^verbatim>\<open>10\<close> and \<^verbatim>\<open>0x43\<close> is \<^verbatim>\<open>11\<close>.
\<close>

definition example_encode :: "8 word \<Rightarrow> aws_huffman_code" where
  "example_encode s = (if s = 0x41 then \<lparr>pattern = 0, num_bits = 1\<rparr>
                       else if s = 0x42 then \<lparr>pattern = 2, num_bits = 2\<rparr>
                       else if s = 0x43 then \<lparr>pattern = 3, num_bits = 2\<rparr>
                       else \<lparr>pattern = 0, num_bits = 0\<rparr>)"

definition example_decode :: "32 word \<Rightarrow> 8 word \<times> 8 word" where
  "example_decode w = (if \<not> bit w 31 then (1, 0x41)
                       else if \<not> bit w 30 then (2, 0x42)
                       else (2, 0x43))"

definition example_coder :: aws_huffman_symbol_coder where
  "example_coder = \<lparr>encode = example_encode, decode = example_decode\<rparr>"

declare encode_write_bit_pattern_loop.simps [simp del]

declare aws_huffman_decode_loop.simps [simp del]

lemma fill_num:
  "unat (num_bits_d d) \<le> 39 \<Longrightarrow> decode_fill_working_bits d c = (d1, c1) \<Longrightarrow>
     unat (num_bits_d d1) + 8 * length c1 = unat (num_bits_d d) + 8 * length c \<and>
     unat (num_bits_d d1) \<le> 39 \<and> (c1 = [] \<or> 32 \<le> unat (num_bits_d d1)) \<and>
     coder_d d1 = coder_d d"
proof (induction c arbitrary: d)
  case Nil
  then show ?case by auto
next
  case (Cons b c)
  show ?case
  proof (cases "num_bits_d d < 32")
    case True
    then have lt: "unat (num_bits_d d) < 32" by (simp add: word_less_nat_alt)
    then have u: "unat (num_bits_d d + 8) = unat (num_bits_d d) + 8"
      by (simp add: unat_word_ariths)
    let ?d' = "d\<lparr>working_bits := working_bits d OR push_bit (64 - 8 - unat (num_bits_d d)) (ucast b),
                  num_bits_d := num_bits_d d + 8\<rparr>"
    from Cons.prems(2) True have "decode_fill_working_bits ?d' c = (d1, c1)"
      by (simp add: Let_def)
    moreover have "unat (num_bits_d ?d') \<le> 39" using lt u by simp
    ultimately have "unat (num_bits_d d1) + 8 * length c1 = unat (num_bits_d ?d') + 8 * length c \<and>
     unat (num_bits_d d1) \<le> 39 \<and> (c1 = [] \<or> 32 \<le> unat (num_bits_d d1)) \<and>
     coder_d d1 = coder_d ?d'" by (rule Cons.IH[rotated])
    then show ?thesis using u by simp
  next
    case False
    then have "32 \<le> unat (num_bits_d d)" by (simp add: word_less_nat_alt)
    with Cons.prems False show ?thesis by auto
  qed
qed

lemma fill_idem:
  "decode_fill_working_bits d c = (d1, c1) \<Longrightarrow> decode_fill_working_bits d1 c1 = (d1, c1)"
proof (induction c arbitrary: d)
  case Nil
  then show ?case by auto
next
  case (Cons b c)
  then show ?case by (cases "num_bits_d d < 32") (auto simp: Let_def)
qed

lemma decode_loop_num_bits:
  assumes "\<forall>w. unat (fst (decode (coder_d d) w)) \<le> 32"
      and "unat (num_bits_d d) \<le> 39"
      and "bits_left = unat (num_bits_d d) + 8 * length c"
      and "aws_huffman_decode_loop d c out bits_left = (r, d', c', out')"
    shows "unat (num_bits_d d') \<le> 39 \<and> coder_d d' = coder_d d"
  using assms
proof (induction d c out bits_left rule: aws_huffman_decode_loop.induct)
  case (1 decoder to_decode out bits_left)
  obtain d1 c1 where fill: "decode_fill_working_bits decoder to_decode = (d1, c1)"
    by (cases "decode_fill_working_bits decoder to_decode")
  obtain k s where dec: "decode (coder_d d1) (ucast (drop_bit (64 - 32) (working_bits d1))) = (k, s)"
    by (cases "decode (coder_d d1) (ucast (drop_bit (64 - 32) (working_bits d1)))")
  from fill_num[OF "1.prems"(2) fill] "1.prems"(3)
  have n1: "unat (num_bits_d d1) + 8 * length c1 = bits_left"
    and n1le: "unat (num_bits_d d1) \<le> 39"
    and full: "c1 = [] \<or> 32 \<le> unat (num_bits_d d1)"
    and cd: "coder_d d1 = coder_d decoder" by auto
  from "1.prems"(1) cd dec have k32: "unat k \<le> 32"
    by (metis fst_conv)
  note unf = aws_huffman_decode_loop.simps[of decoder to_decode out bits_left]
  show ?case
  proof (cases "k = 0 \<or> unat k > bits_left \<or> length (buffer out) = capacity out")
    case True
    with "1.prems"(4) fill dec have "d' = d1"
      by (auto simp: unf Let_def split: if_splits)
    with n1le cd show ?thesis by simp
  next
    case False
    then have k0: "k \<noteq> 0" and kle: "unat k \<le> bits_left"
      and nf: "length (buffer out) \<noteq> capacity out" by auto
    from full n1 kle k32 have kn: "unat k \<le> unat (num_bits_d d1)" by auto
    then have sub: "unat (num_bits_d d1 - k) = unat (num_bits_d d1) - unat k"
      by (simp add: unat_sub word_le_nat_alt)
    let ?d2 = "d1\<lparr>working_bits := push_bit (unat k) (working_bits d1),
                    num_bits_d := num_bits_d d1 - k\<rparr>"
    let ?out = "snd (aws_byte_buf_write_u8 out s)"
    show ?thesis
    proof (cases "bits_left - unat k = 0")
      case True
      with "1.prems"(4) fill dec k0 kle nf have "d' = ?d2"
        by (auto simp: unf Let_def split: if_splits)
      with sub n1le cd show ?thesis by simp
    next
      case nz: False
      with "1.prems"(4) fill dec k0 kle nf
      have rec: "aws_huffman_decode_loop ?d2 c1 ?out (bits_left - unat k) = (r, d', c', out')"
        by (auto simp: unf Let_def split: if_splits)
      have "unat (num_bits_d d') \<le> 39 \<and> coder_d d' = coder_d ?d2"
      proof (rule "1.IH"[OF fill[symmetric] refl dec[symmetric] refl _ _ _ refl refl refl _ _ _ _ rec])
        show "k \<noteq> 0" by (rule k0)
        show "\<not> bits_left < unat k" using kle by simp
        show "length (buffer out) \<noteq> capacity out" by (rule nf)
        show "bits_left - unat k \<noteq> 0" by (rule nz)
        show "\<forall>w. unat (fst (decode (coder_d ?d2) w)) \<le> 32" using "1.prems"(1) cd by simp
        show "unat (num_bits_d ?d2) \<le> 39" using sub n1le by simp
        show "bits_left - unat k = unat (num_bits_d ?d2) + 8 * length c1"
          using sub n1 kn by simp
      qed
      with cd show ?thesis by simp
    qed
  qed
qed

lemma length_word_bits [simp]: "length (word_bits n w) = n"
  by (simp add: word_bits_def)

lemma nth_word_bits [simp]: "i < n \<Longrightarrow> word_bits n w ! i = bit w (n - 1 - i)"
  by (simp add: word_bits_def)

lemma word_bits_0 [simp]: "word_bits 0 w = []"
  by (simp add: word_bits_def)

lemma take_word_bits: "k \<le> n \<Longrightarrow> take k (word_bits n w) = word_bits k (drop_bit (n - k) w)"
  by (rule nth_equalityI) (auto simp: bit_simps intro!: arg_cong[where f="bit w"])

lemma drop_word_bits: "drop k (word_bits n w) = word_bits (n - k) w"
  by (rule nth_equalityI) (auto simp: bit_simps intro!: arg_cong[where f="bit w"])

lemma word_bits_split: "word_bits (a + b) w = word_bits a (drop_bit b w) @ word_bits b w"
proof -
  have "word_bits (a + b) w = take a (word_bits (a + b) w) @ drop a (word_bits (a + b) w)"
    by simp
  also have "\<dots> = word_bits a (drop_bit b w) @ word_bits b w"
    by (simp only: take_word_bits drop_word_bits) simp
  finally show ?thesis .
qed

lemma word_bits_cong: "take_bit n w = take_bit n v \<Longrightarrow> word_bits n w = word_bits n v"
proof (rule nth_equalityI)
  fix i assume a: "take_bit n w = take_bit n v" "i < length (word_bits n w)"
  then have "bit (take_bit n w) (n - 1 - i) = bit (take_bit n v) (n - 1 - i)" by simp
  with a(2) show "word_bits n w ! i = word_bits n v ! i" by (simp add: bit_simps)
qed simp

lemma word_bits_take_bit [simp]: "word_bits n (take_bit n w) = word_bits n w"
  by (rule word_bits_cong) simp

lemma word_bits_inj: 
  fixes w v :: "'a::len word"
  assumes "word_bits n w = word_bits n v" shows "take_bit n w = take_bit n v"
proof (rule bit_word_eqI)
  fix i assume "i < LENGTH('a)"
  show "bit (take_bit n w) i = bit (take_bit n v) i"
  proof (cases "i < n")
    case True
    then have "word_bits n w ! (n - 1 - i) = word_bits n v ! (n - 1 - i)" using assms by simp
    with True show ?thesis by (simp add: bit_simps)
  next
    case False
    then show ?thesis by (simp add: bit_simps)
  qed
qed

lemma take_bit_0_bit: "take_bit p w = 0 \<Longrightarrow> j < p \<Longrightarrow> \<not> bit w j"
  by (metis bit_take_bit_iff bit_0_eq bot_apply bot_bool_def)

lemma enc_step_bit:
  fixes w :: "8 word" and pat :: "32 word"
  assumes "p \<le> 8" "1 \<le> t" "t \<le> 32" "j < 8"
  shows "bit (w OR ucast (drop_bit (32 - p) (push_bit (32 - t) pat))) j
         = (bit w j \<or> (j < p \<and> p \<le> t + j \<and> bit pat (t + j - p)))"
  using assms by (auto simp: bit_simps add.commute)

lemma enc_step_partial:
  fixes w :: "8 word" and pat :: "32 word"
  assumes "p \<le> 8" "1 \<le> t" "t \<le> 32" "take_bit p w = 0" "t \<le> p"
  defines "w' \<equiv> w OR ucast (drop_bit (32 - p) (push_bit (32 - t) pat))"
  shows "take (8 - (p - t)) (word_bits 8 w') = take (8 - p) (word_bits 8 w) @ word_bits t pat"
    and "take_bit (p - t) w' = 0"
proof -
  show "take (8 - (p - t)) (word_bits 8 w') = take (8 - p) (word_bits 8 w) @ word_bits t pat"
  proof (rule nth_equalityI)
    show "length (take (8 - (p - t)) (word_bits 8 w')) = length (take (8 - p) (word_bits 8 w) @ word_bits t pat)"
      using assms by simp
  next
    fix i assume "i < length (take (8 - (p - t)) (word_bits 8 w'))"
    then have i: "i < 8 - (p - t)" by simp
    then have i8: "i < 8" by simp
    show "take (8 - (p - t)) (word_bits 8 w') ! i = (take (8 - p) (word_bits 8 w) @ word_bits t pat) ! i"
    proof (cases "i < 8 - p")
      case True
      then have "\<not> 7 - i < p" using i8 by simp
      then show ?thesis using True assms(1-3) i i8
        by (simp add: nth_append w'_def enc_step_bit)
    next
      case False
      then have a: "7 - i < p" using assms(1) i8 by simp
      then have nb: "\<not> bit w (7 - i)" using assms(4) take_bit_0_bit by blast
      have b: "p \<le> t + (7 - i)" using i i8 assms(5) by simp
      have c: "t + (7 - i) - p = t - Suc (i - (8 - p))" using False i assms by simp
      have "bit w' (7 - i) = bit pat (t + (7 - i) - p)"
        unfolding w'_def using a b nb assms(1-3) by (subst enc_step_bit) simp_all
      then show ?thesis using False i i8 assms(1,5) c
        by (simp add: nth_append)
    qed
  qed
  show "take_bit (p - t) w' = 0"
  proof (rule bit_word_eqI)
    fix j assume "j < LENGTH(8)"
    then have j8: "j < 8" by simp
    show "bit (take_bit (p - t) w') j = bit (0 :: 8 word) j"
    proof (cases "j < p - t")
      case True
      then have "\<not> bit w j" using assms(4) take_bit_0_bit[of p w j] by simp
      moreover have "\<not> p \<le> t + j" using True by simp
      ultimately have "\<not> bit w' j"
        unfolding w'_def using assms(1-3) j8 by (subst enc_step_bit) simp_all
      then show ?thesis by (simp add: bit_take_bit_iff)
    next
      case False
      then show ?thesis by (simp add: bit_take_bit_iff)
    qed
  qed
qed

lemma enc_step_full:
  fixes w :: "8 word" and pat :: "32 word"
  assumes "1 \<le> p" "p \<le> 8" "t \<le> 32" "take_bit p w = 0" "p \<le> t"
  defines "w' \<equiv> w OR ucast (drop_bit (32 - p) (push_bit (32 - t) pat))"
  shows "word_bits 8 w' = take (8 - p) (word_bits 8 w) @ take p (word_bits t pat)"
proof (rule nth_equalityI)
  show "length (word_bits 8 w') = length (take (8 - p) (word_bits 8 w) @ take p (word_bits t pat))"
    using assms by simp
next
  fix i assume "i < length (word_bits 8 w')"
  then have i8: "i < 8" by simp
  have t1: "1 \<le> t" using assms by simp
  show "word_bits 8 w' ! i = (take (8 - p) (word_bits 8 w) @ take p (word_bits t pat)) ! i"
  proof (cases "i < 8 - p")
    case True
    then have "\<not> 7 - i < p" using i8 by simp
    then show ?thesis using True assms(2,3) t1 i8
      by (simp add: nth_append w'_def enc_step_bit)
  next
    case False
    then have a: "7 - i < p" using assms(2) i8 by simp
    then have nb: "\<not> bit w (7 - i)" using assms(4) take_bit_0_bit by blast
    have b: "p \<le> t + (7 - i)" using assms(5) by simp
    have c: "t + (7 - i) - p = t - Suc (i - (8 - p))" using False i8 assms by simp
    have "bit w' (7 - i) = bit pat (t + (7 - i) - p)"
      unfolding w'_def using a b nb assms(2,3) t1 by (subst enc_step_bit) simp_all
    then show ?thesis using False i8 assms(2,5) c
      by (simp add: nth_append)
  qed
qed

lemma overflow_pattern_bits:
  fixes pat :: "32 word"
  assumes "1 \<le> t" "t \<le> 32"
  shows "word_bits t (drop_bit (32 - t) (push_bit (32 - t) pat)) = word_bits t pat"
  by (rule word_bits_cong, rule bit_word_eqI) (use assms in \<open>auto simp: bit_simps\<close>)

lemma bits_to_cut_eq: "(32 - nb) + (nb - btw) = (32 - btw :: 8 word)"
  by simp

lemma unat_32_minus: "unat (btw :: 8 word) \<le> 32 \<Longrightarrow> unat (32 - btw) = 32 - unat btw"
  by (simp add: unat_sub word_le_nat_alt)

lemma loop_zero: "encode_write_bit_pattern_loop bp 0 st = (Inr (), st)"
  by (simp add: encode_write_bit_pattern_loop.simps[of bp 0 st])

lemma loop_step_lt:
  assumes "0 < unat btw" "unat btw < unat (bit_pos st)" "unat btw \<le> 32"
  shows "encode_write_bit_pattern_loop bp btw st =
          (Inr (), st\<lparr>working := working st OR
                       ucast (drop_bit (32 - unat (bit_pos st)) (push_bit (32 - unat btw) (pattern bp))),
                     bit_pos := bit_pos st - btw\<rparr>)"
proof -
  have a: "0 < btw" using assms(1) by (simp add: word_less_nat_alt)
  have b: "\<not> bit_pos st < btw" using assms(2) by (simp add: word_less_nat_alt)
  have c: "bit_pos st - btw \<noteq> 0" using assms(2) by (metis less_irrefl right_minus_eq)
  show ?thesis
    using a b c assms(3)
    by (simp add: encode_write_bit_pattern_loop.simps[of bp btw st] Let_def bits_to_cut_eq
                  unat_32_minus loop_zero)
qed

lemma loop_step_ge:
  assumes "0 < unat (bit_pos st)" "unat (bit_pos st) \<le> unat btw" "unat btw \<le> 32"
  shows "encode_write_bit_pattern_loop bp btw st =
          (let w' = working st OR
                       ucast (drop_bit (32 - unat (bit_pos st)) (push_bit (32 - unat btw) (pattern bp)));
               out' = snd (aws_byte_buf_write_u8 (output_buf st) w');
               st4 = st\<lparr>output_buf := out', bit_pos := 8, working := 0\<rparr>;
               btw' = btw - bit_pos st
           in if length (buffer out') = capacity out' then
                (Inl AWS_ERROR_SHORT_BUFFER,
                 st4\<lparr>encoder := (encoder st)\<lparr>overflow_bits :=
                    (if btw' \<noteq> 0 then
                       \<lparr>pattern = drop_bit (32 - unat btw') (push_bit (32 - unat btw') (pattern bp)),
                        num_bits = btw'\<rparr>
                     else (overflow_bits (encoder st))\<lparr>num_bits := 0\<rparr>)\<rparr>\<rparr>)
              else encode_write_bit_pattern_loop bp btw' st4)"
proof -
  have a: "0 < btw" using assms(1,2) by (simp add: word_less_nat_alt)
  have le: "bit_pos st \<le> btw" using assms(2) by (simp add: word_le_nat_alt)
  have u: "unat (btw - bit_pos st) = unat btw - unat (bit_pos st)"
    using le by (simp add: unat_sub)
  have cut: "unat (32 - btw + bit_pos st) = 32 - unat (btw - bit_pos st)"
  proof -
    have "32 - btw + bit_pos st = 32 - (btw - bit_pos st)" by simp
    moreover have "unat (btw - bit_pos st) \<le> 32" using u assms(3) by simp
    ultimately show ?thesis by (simp only: unat_32_minus)
  qed
  show ?thesis
  proof (cases "bit_pos st < btw")
    case True
    then show ?thesis using a assms(3) cut
      by (simp add: encode_write_bit_pattern_loop.simps[of bp btw st] Let_def bits_to_cut_eq
                  unat_32_minus)
  next
    case False
    then have eq: "btw = bit_pos st" using le by simp
    show ?thesis using a assms(3) unfolding eq
      by (simp add: encode_write_bit_pattern_loop.simps[of bp "bit_pos st" st] Let_def bits_to_cut_eq
                  unat_32_minus)
  qed
qed

lemma stream_bits_simps [simp]:
  "stream_bits [] = []"
  "stream_bits (xs @ ys) = stream_bits xs @ stream_bits ys"
  "stream_bits (b # xs) = word_bits 8 b @ stream_bits xs"
  by (simp_all add: stream_bits_def)

lemma length_stream_bits [simp]: "length (stream_bits xs) = 8 * length xs"
  by (induction xs) simp_all

lemma wr_post_mono:
  assumes "wr_post st4 bs' res" "est_bits st4 @ bs' = est_bits st @ bs"
    "encoder st4 = encoder st" "capacity (output_buf st4) = capacity (output_buf st)"
    "length bs' \<le> length bs"
  shows "wr_post st bs res"
  using assms by (auto simp: wr_post_def split: prod.splits sum.splits)

lemma write_loop_spec:
  assumes "est_inv st" "unat btw \<le> 32"
  shows "wr_post st (word_bits (unat btw) (pattern bp)) (encode_write_bit_pattern_loop bp btw st)"
  using assms
proof (induction "unat btw" arbitrary: btw st rule: less_induct)
  case less
  let ?p = "unat (bit_pos st)" and ?t = "unat btw"
  let ?X = "word_bits ?t (pattern bp)"
  from less.prems(1) have p1: "1 \<le> ?p" and p8: "?p \<le> 8"
    and wz: "take_bit ?p (working st) = 0"
    and room: "length (buffer (output_buf st)) < capacity (output_buf st)"
    by (simp_all add: est_inv_def)
  let ?w' = "working st OR ucast (drop_bit (32 - ?p) (push_bit (32 - ?t) (pattern bp)))"
  consider (zero) "?t = 0" | (lt) "0 < ?t" "?t < ?p" | (ge) "?p \<le> ?t"
    by linarith
  then show ?case
  proof cases
    case zero
    then have "btw = 0" by (simp add: unat_eq_0)
    then show ?thesis using less.prems(1)
      by (simp add: loop_zero wr_post_def)
  next
    case lt
    have le: "btw \<le> bit_pos st" using lt(2) by (simp add: word_le_nat_alt)
    have u: "unat (bit_pos st - btw) = ?p - ?t" using le by (simp add: unat_sub)
    have t1: "1 \<le> ?t" using lt(1) by simp
    have tp: "?t \<le> ?p" using lt(2) by simp
    note part = enc_step_partial[OF p8 t1 less.prems(2) wz tp, of "pattern bp"]
    let ?st' = "st\<lparr>working := ?w', bit_pos := bit_pos st - btw\<rparr>"
    have rng: "1 \<le> ?p - ?t" "?p - ?t \<le> 8" using lt p8 by linarith+
    have inv': "est_inv ?st'"
      unfolding est_inv_def using rng room part(2) by (simp add: u)
    have bits': "est_bits ?st' = est_bits st @ ?X"
      unfolding est_bits_def using part(1) u by simp
    show ?thesis
      using inv' bits'
      by (simp add: loop_step_lt[OF lt less.prems(2)] wr_post_def)
  next
    case ge
    have p0: "0 < ?p" using p1 by simp
    have le: "bit_pos st \<le> btw" using ge by (simp add: word_le_nat_alt)
    have u: "unat (btw - bit_pos st) = ?t - ?p" using le by (simp add: unat_sub)
    let ?t' = "?t - ?p"
    note full = enc_step_full[OF p1 p8 less.prems(2) wz ge]
    let ?out' = "(output_buf st)\<lparr>buffer := buffer (output_buf st) @ [?w']\<rparr>"
    have wr: "snd (aws_byte_buf_write_u8 (output_buf st) ?w') = ?out'"
      using room by (simp add: aws_byte_buf_write_u8_def)
    let ?st4 = "st\<lparr>output_buf := ?out', bit_pos := 8, working := 0\<rparr>"
    have bits4: "est_bits ?st4 = est_bits st @ take ?p ?X"
      using full by (simp add: est_bits_def)
    have dropX: "drop ?p ?X = word_bits ?t' (pattern bp)"
      by (simp add: drop_word_bits)
    have split: "est_bits ?st4 @ word_bits ?t' (pattern bp) = est_bits st @ ?X"
      using bits4 dropX by (metis append.assoc append_take_drop_id)
    show ?thesis
    proof (cases "length (buffer ?out') = capacity ?out'")
      case True
      show ?thesis
      proof (cases "btw - bit_pos st = 0")
        case z: True
        then have "?t' = 0" using u by simp
        then show ?thesis using True split
          by (simp add: loop_step_ge[OF p0 ge less.prems(2)] wr Let_def wr_post_def z code_bits_def
                est_bits_def)
      next
        case nz: False
        then have t'1: "1 \<le> ?t'" using u by (metis One_nat_def Suc_leI unat_gt_0)
        have t'32: "?t' \<le> 32" using less.prems(2) by simp
        have "word_bits ?t' (drop_bit (32 - ?t') (push_bit (32 - ?t') (pattern bp)))
                = word_bits ?t' (pattern bp)"
          by (rule overflow_pattern_bits[OF t'1 t'32])
        then show ?thesis using True split nz u
          by (simp add: loop_step_ge[OF p0 ge less.prems(2)] wr Let_def wr_post_def code_bits_def
                est_bits_def)
      qed
    next
      case False
      have inv4: "est_inv ?st4" using False room by (simp add: est_inv_def)
      have l1: "unat (btw - bit_pos st) < ?t" using u p1 ge by simp
      have l2: "unat (btw - bit_pos st) \<le> 32" using u less.prems(2) by simp
      have "wr_post ?st4 (word_bits (unat (btw - bit_pos st)) (pattern bp))
              (encode_write_bit_pattern_loop bp (btw - bit_pos st) ?st4)"
        by (rule less.hyps[OF l1 inv4 l2])
      then have "wr_post st ?X (encode_write_bit_pattern_loop bp (btw - bit_pos st) ?st4)"
        by (rule wr_post_mono) (use split u in simp_all)
      then show ?thesis using False
        by (simp add: loop_step_ge[OF p0 ge less.prems(2)] wr Let_def)
    qed
  qed
qed

lemma decode_call_num_bits:
  assumes "\<forall>w. unat (fst (decode (coder_d d) w)) \<le> 32"
      and "unat (num_bits_d d) \<le> 39"
      and "aws_huffman_decode d c out = (r, d', c', out')"
    shows "unat (num_bits_d d') \<le> 39 \<and> coder_d d' = coder_d d"
proof (cases "length (buffer out) = capacity out")
  case True
  with assms show ?thesis by (simp add: aws_huffman_decode_def)
next
  case False
  with assms(3) have "aws_huffman_decode_loop d c out (unat (num_bits_d d) + 8 * length c)
                        = (r, d', c', out')"
    by (simp add: aws_huffman_decode_def Let_def mult.commute)
  from decode_loop_num_bits[OF assms(1,2) refl this] show ?thesis .
qed

lemma abc_fill_FF:
  "decode_fill_working_bits (aws_huffman_decoder_init abc_coder) [0xFF] =
     (\<lparr>coder_d = abc_coder, working_bits = 0xFF00000000000000, num_bits_d = 8\<rparr>, [])"
  by (simp add: aws_huffman_decoder_init_def)

lemma abc_decode_FF: "abc_decode 0xFF000000 = (0, 0)"
  by (simp add: abc_decode_def)


lemma abc_coder_simps [simp]: "encode abc_coder = abc_encode" "decode abc_coder = abc_decode"
  by (simp_all add: abc_coder_def)

lemma abc_decode_call_FF:
  "aws_huffman_decode (aws_huffman_decoder_init abc_coder) [0xFF] \<lparr>buffer = [], capacity = 4\<rparr> =
     (Inr (), \<lparr>coder_d = abc_coder, working_bits = 0xFF00000000000000, num_bits_d = 8\<rparr>, [],
      \<lparr>buffer = [], capacity = 4\<rparr>)"
  by (simp add: aws_huffman_decode_def aws_huffman_decoder_init_def abc_decode_FF
        aws_huffman_decode_loop.simps[of "\<lparr>coder_d = abc_coder, working_bits = 0, num_bits_d = 0\<rparr>"])

lemma seq_bits_simps [simp]:
  "seq_bits c [] = []"
  "seq_bits c (s # seq) = code_bits (encode c s) @ seq_bits c seq"
  "seq_bits c (xs @ ys) = seq_bits c xs @ seq_bits c ys"
  by (simp_all add: seq_bits_def)

lemma length_code_bits [simp]: "length (code_bits cd) = unat (num_bits cd)"
  by (simp add: code_bits_def)

lemma write_bit_pattern_unknown:
  "num_bits cd = 0 \<Longrightarrow> encode_write_bit_pattern st cd = (Inl AWS_ERROR_COMPRESSION_UNKNOWN_SYMBOL, st)"
  by (simp add: encode_write_bit_pattern_def)

lemma write_bit_pattern_spec:
  assumes "est_inv st" "num_bits cd \<noteq> 0" "unat (num_bits cd) \<le> 32"
  shows "wr_post st (code_bits cd) (encode_write_bit_pattern st cd)"
  using assms by (simp add: encode_write_bit_pattern_def code_bits_def write_loop_spec)

lemma encode_loop_spec:
  assumes "est_inv st" "codes_ok (coder (encoder st)) seq"
  shows "loop_post st seq (aws_huffman_encode_loop st seq)"
  using assms
proof (induction seq arbitrary: st)
  case Nil
  then show ?case by (simp add: loop_post_def)
next
  case (Cons s seq)
  let ?c = "coder (encoder st)"
  let ?cd = "encode ?c s"
  from Cons.prems(2) have ok: "num_bits ?cd \<noteq> 0" "unat (num_bits ?cd) \<le> 32"
    and oks: "codes_ok ?c seq" by (simp_all add: codes_ok_def)
  have wp: "wr_post st (code_bits ?cd) (encode_write_bit_pattern st ?cd)"
    by (rule write_bit_pattern_spec[OF Cons.prems(1) ok])
  obtain r st1 where w: "encode_write_bit_pattern st ?cd = (r, st1)"
    by (cases "encode_write_bit_pattern st ?cd")
  show ?case
  proof (cases r)
    case (Inl e)
    with wp w ok show ?thesis
      by (auto simp: wr_post_def loop_post_def Let_def)
  next
    case (Inr u)
    with wp w have inv1: "est_inv st1" and b1: "est_bits st1 = est_bits st @ code_bits ?cd"
      and e1: "encoder st1 = encoder st"
      and c1: "capacity (output_buf st1) = capacity (output_buf st)"
      by (simp_all add: wr_post_def)
    from oks e1 have "codes_ok (coder (encoder st1)) seq" by simp
    from Cons.IH[OF inv1 this] have "loop_post st1 seq (aws_huffman_encode_loop st1 seq)" .
    then have "loop_post st (s # seq) (aws_huffman_encode_loop st1 seq)"
      using b1 e1 c1
      by (auto simp: loop_post_def split: prod.splits sum.splits)
    then show ?thesis using w Inr by (simp add: Let_def)
  qed
qed

lemma word_bits_8_inj: "word_bits 8 (a :: 8 word) = word_bits 8 b \<Longrightarrow> a = b"
  using word_bits_inj[of 8 a b] by (simp add: take_bit_word_eq_self)

lemma stream_bits_append_eq:
  "stream_bits xs @ p = stream_bits ys @ q \<Longrightarrow> length xs \<le> length ys \<Longrightarrow>
     \<exists>zs. ys = xs @ zs \<and> p = stream_bits zs @ q"
proof (induction xs arbitrary: ys)
  case Nil
  then show ?case by simp
next
  case (Cons a xs)
  then obtain b ys' where ys: "ys = b # ys'" by (cases ys) auto
  from Cons.prems(1) ys have "word_bits 8 a @ (stream_bits xs @ p) = word_bits 8 b @ (stream_bits ys' @ q)"
    by simp
  then have ab: "word_bits 8 a = word_bits 8 b" and rest: "stream_bits xs @ p = stream_bits ys' @ q"
    by (simp_all add: append_eq_append_conv)
  from Cons.IH[OF rest] Cons.prems(2) ys obtain zs where "ys' = xs @ zs" "p = stream_bits zs @ q"
    by auto
  with ys word_bits_8_inj[OF ab] show ?case by simp
qed

lemma stream_bits_inj: "stream_bits xs = stream_bits ys \<Longrightarrow> xs = ys"
proof -
  assume a: "stream_bits xs = stream_bits ys"
  then have "length xs = length ys"
    by (metis length_stream_bits mult_cancel1 zero_neq_numeral)
  with stream_bits_append_eq[of xs "[]" ys "[]"] a show ?thesis by auto
qed

lemma word_bits_ucast_8_32: "k \<le> 8 \<Longrightarrow> word_bits k (ucast (b :: 8 word) :: 32 word) = word_bits k b"
  by (rule nth_equalityI) (auto simp: bit_simps)

lemma encode_eos_spec:
  assumes inv: "est_inv st"
  shows "stream_bits (buffer (output_buf (aws_huffman_encode_eos st))) =
           est_bits st @ word_bits (unat (bit_pos st) mod 8) (eos_padding (encoder st)) \<and>
         capacity (output_buf (aws_huffman_encode_eos st)) = capacity (output_buf st) \<and>
         coder (encoder (aws_huffman_encode_eos st)) = coder (encoder st) \<and>
         eos_padding (encoder (aws_huffman_encode_eos st)) = eos_padding (encoder st) \<and>
         (num_bits (overflow_bits (encoder (aws_huffman_encode_eos st))) = 0 \<or>
          encoder (aws_huffman_encode_eos st) = encoder st)"
proof (cases "bit_pos st = 8")
  case True
  then show ?thesis by (simp add: aws_huffman_encode_eos_def est_bits_def)
next
  case False
  let ?p = "unat (bit_pos st)"
  from inv have p1: "1 \<le> ?p" and p8: "?p \<le> 8"
    and room: "length (buffer (output_buf st)) < capacity (output_buf st)"
    by (simp_all add: est_inv_def)
  from False have "?p \<noteq> 8" by (simp add: word_unat_eq_iff)
  with p8 have p7: "?p < 8" by simp
  let ?cp = "\<lparr>pattern = ucast (eos_padding (encoder st)), num_bits = bit_pos st\<rparr>"
  let ?pad = "word_bits ?p (eos_padding (encoder st))"
  have nz: "num_bits ?cp \<noteq> 0" using p1 by (auto simp: unat_eq_0)
  have le: "unat (num_bits ?cp) \<le> 32" using p8 by simp
  have cb: "code_bits ?cp = ?pad"
    using p8 by (simp add: code_bits_def word_bits_ucast_8_32)
  from write_bit_pattern_spec[OF inv nz le] cb
  have wp: "wr_post st ?pad (encode_write_bit_pattern st ?cp)" by simp
  obtain r st' where w: "encode_write_bit_pattern st ?cp = (r, st')"
    by (cases "encode_write_bit_pattern st ?cp")
  have eos: "aws_huffman_encode_eos st = st'"
    using False w by (simp add: aws_huffman_encode_eos_def Let_def)
  have len: "length (est_bits st @ ?pad) = 8 * (length (buffer (output_buf st)) + 1)"
    using p8 by (simp add: est_bits_def)
  show ?thesis
  proof (cases r)
    case (Inr u)
    with wp w have inv': "est_inv st'" and b: "est_bits st' = est_bits st @ ?pad"
      and e: "encoder st' = encoder st"
      and c: "capacity (output_buf st') = capacity (output_buf st)"
      by (simp_all add: wr_post_def)
    from inv' have q: "1 \<le> unat (bit_pos st')" "unat (bit_pos st') \<le> 8" by (simp_all add: est_inv_def)
    from arg_cong[OF b, of length] len
    have "8 * length (buffer (output_buf st')) + (8 - unat (bit_pos st'))
            = 8 * (length (buffer (output_buf st)) + 1)"
      using q by (simp add: est_bits_def)
    with q have "unat (bit_pos st') = 8" by presburger
    with b have "stream_bits (buffer (output_buf st')) = est_bits st @ ?pad"
      by (simp add: est_bits_def)
    with e c eos p7 show ?thesis by simp
  next
    case (Inl err)
    with wp w have full: "length (buffer (output_buf st')) = capacity (output_buf st')"
      and c: "capacity (output_buf st') = capacity (output_buf st)"
      and b: "stream_bits (buffer (output_buf st')) @ code_bits (overflow_bits (encoder st')) =
                est_bits st @ ?pad"
      and cd: "coder (encoder st') = coder (encoder st)"
      and ep: "eos_padding (encoder st') = eos_padding (encoder st)"
      by (simp_all add: wr_post_def)
    from arg_cong[OF b, of length] len full c room
    have z: "unat (num_bits (overflow_bits (encoder st'))) = 0" by simp
    then have "code_bits (overflow_bits (encoder st')) = []" by (simp add: code_bits_def)
    with b have "stream_bits (buffer (output_buf st')) = est_bits st @ ?pad" by simp
    with c cd ep z eos p7 show ?thesis by (simp add: unat_eq_0)
  qed
qed

lemma encode_overflow_spec:
  assumes room: "length (buffer out) < capacity out"
      and ovf: "unat (num_bits (overflow_bits enc)) \<le> 32"
      and st0: "st0 = \<lparr>encoder = enc, output_buf = out, working = 0, bit_pos = 8\<rparr>"
  shows "case aws_huffman_encode_overflow st0 of
           (Inr u, st1) \<Rightarrow>
             est_inv st1 \<and> est_bits st1 = stream_bits (buffer out) @ code_bits (overflow_bits enc) \<and>
             coder (encoder st1) = coder enc \<and> eos_padding (encoder st1) = eos_padding enc \<and>
             num_bits (overflow_bits (encoder st1)) = 0 \<and>
             capacity (output_buf st1) = capacity out
         | (Inl e, st1) \<Rightarrow>
             e = AWS_ERROR_SHORT_BUFFER \<and>
             length (buffer (output_buf st1)) = capacity (output_buf st1) \<and>
             capacity (output_buf st1) = capacity out \<and>
             coder (encoder st1) = coder enc \<and> eos_padding (encoder st1) = eos_padding enc \<and>
             unat (num_bits (overflow_bits (encoder st1))) \<le> 32 \<and>
             stream_bits (buffer (output_buf st1)) @ code_bits (overflow_bits (encoder st1)) =
               stream_bits (buffer out) @ code_bits (overflow_bits enc)"
proof -
  have inv0: "est_inv st0" using room by (simp add: st0 est_inv_def)
  have b0: "est_bits st0 = stream_bits (buffer out)" by (simp add: st0 est_bits_def)
  show ?thesis
  proof (cases "num_bits (overflow_bits enc) = 0")
    case True
    then have "code_bits (overflow_bits enc) = []" by (simp add: code_bits_def)
    with True inv0 b0 show ?thesis
      by (simp add: aws_huffman_encode_overflow_def st0)
  next
    case False
    from write_bit_pattern_spec[OF inv0 _ _, of "overflow_bits enc"] False ovf
    have wp: "wr_post st0 (code_bits (overflow_bits enc)) (encode_write_bit_pattern st0 (overflow_bits enc))"
      by simp
    obtain r st1 where w: "encode_write_bit_pattern st0 (overflow_bits enc) = (r, st1)"
      by (cases "encode_write_bit_pattern st0 (overflow_bits enc)")
    have enc0: "encoder st0 = enc" "output_buf st0 = out" by (simp_all add: st0)
    show ?thesis
    proof (cases r)
      case (Inl e)
      with wp w b0 enc0 ovf False show ?thesis
        by (simp add: aws_huffman_encode_overflow_def wr_post_def)
    next
      case (Inr u)
      with wp w b0 enc0 False show ?thesis
        by (simp add: aws_huffman_encode_overflow_def wr_post_def est_inv_def est_bits_def)
    qed
  qed
qed

lemma pad_arith:
  fixes p a b n :: nat
  assumes "1 \<le> p" "p \<le> 8" "8 * a + (8 - p) = 8 * b + n"
  shows "p mod 8 = (8 - n mod 8) mod 8"
proof -
  have "(8 * a + (8 - p)) mod 8 = (8 * b + n) mod 8" using assms(3) by simp
  then have "(8 - p) mod 8 = n mod 8" by simp
  moreover have "(8 - p) mod 8 = 8 - p" using assms(1) by simp
  ultimately have "n mod 8 = 8 - p" by simp
  then show ?thesis using assms(1,2) by (cases "p = 8") auto
qed

lemma encode_call_spec:
  assumes ok: "codes_ok (coder enc) seq"
      and ovf: "unat (num_bits (overflow_bits enc)) \<le> 32"
      and wf: "length (buffer out) \<le> capacity out"
  shows "call_post enc seq out (aws_huffman_encode enc seq out)"
proof (cases "length (buffer out) = capacity out")
  case True
  then show ?thesis using ovf
    by (simp add: aws_huffman_encode_def call_post_def)
next
  case False
  with wf have room: "length (buffer out) < capacity out" by simp
  define st0 where "st0 = \<lparr>encoder = enc, output_buf = out, working = 0, bit_pos = 8\<rparr>"
  note os = encode_overflow_spec[OF room ovf st0_def]
  obtain r1 st1 where o: "aws_huffman_encode_overflow st0 = (r1, st1)"
    by (cases "aws_huffman_encode_overflow st0")
  have call: "aws_huffman_encode enc seq out =
     (case (r1, st1) of
        (Inl e, state1) \<Rightarrow> (Inl e, encoder state1, seq, output_buf state1)
      | (Inr u, state1) \<Rightarrow>
          (case aws_huffman_encode_loop state1 seq of
             (Inl e, state2, rest) \<Rightarrow> (Inl e, encoder state2, rest, output_buf state2)
           | (Inr u, state2, rest) \<Rightarrow>
               let state3 = aws_huffman_encode_eos state2
               in (Inr (), encoder state3, rest, output_buf state3)))"
    using False o by (simp add: aws_huffman_encode_def st0_def Let_def)
  show ?thesis
  proof (cases r1)
    case (Inl e)
    with os o have e: "e = AWS_ERROR_SHORT_BUFFER"
      and full: "length (buffer (output_buf st1)) = capacity (output_buf st1)"
      and cap: "capacity (output_buf st1) = capacity out"
      and cd: "coder (encoder st1) = coder enc" and ep: "eos_padding (encoder st1) = eos_padding enc"
      and o32: "unat (num_bits (overflow_bits (encoder st1))) \<le> 32"
      and bits: "stream_bits (buffer (output_buf st1)) @ code_bits (overflow_bits (encoder st1)) =
               stream_bits (buffer out) @ code_bits (overflow_bits enc)"
      by simp_all
    from stream_bits_append_eq[OF bits[symmetric]] room full cap
    obtain zs where zs: "buffer (output_buf st1) = buffer out @ zs"
        "code_bits (overflow_bits enc) = stream_bits zs @ code_bits (overflow_bits (encoder st1))"
      by auto
    show ?thesis
      using Inl e full cap cd ep o32 zs
      by (simp add: call call_post_def pending_bits_def)
  next
    case (Inr u)
    with os o have inv1: "est_inv st1"
      and b1: "est_bits st1 = stream_bits (buffer out) @ code_bits (overflow_bits enc)"
      and cd1: "coder (encoder st1) = coder enc" and ep1: "eos_padding (encoder st1) = eos_padding enc"
      and z1: "num_bits (overflow_bits (encoder st1)) = 0"
      and cap1: "capacity (output_buf st1) = capacity out"
      by simp_all
    from ok cd1 have ok1: "codes_ok (coder (encoder st1)) seq" by simp
    note ls = encode_loop_spec[OF inv1 ok1]
    obtain r2 st2 rest where l: "aws_huffman_encode_loop st1 seq = (r2, st2, rest)"
      by (cases "aws_huffman_encode_loop st1 seq")
    have b1': "est_bits st1 @ seq_bits (coder (encoder st1)) seq = stream_bits (buffer out) @ pending_bits enc seq"
      using b1 cd1 by (simp add: pending_bits_def)
    show ?thesis
    proof (cases r2)
      case e: (Inl e)
      with ls l have e': "e = AWS_ERROR_SHORT_BUFFER"
        and full: "length (buffer (output_buf st2)) = capacity (output_buf st2)"
        and cap: "capacity (output_buf st2) = capacity (output_buf st1)"
        and cd: "coder (encoder st2) = coder (encoder st1)"
        and ep: "eos_padding (encoder st2) = eos_padding (encoder st1)"
        and o32: "unat (num_bits (overflow_bits (encoder st2))) \<le> 32"
        and sub: "set rest \<subseteq> set seq"
        and bits: "stream_bits (buffer (output_buf st2)) @ code_bits (overflow_bits (encoder st2)) @
              seq_bits (coder (encoder st1)) rest = est_bits st1 @ seq_bits (coder (encoder st1)) seq"
        by (simp_all add: loop_post_def)
      from bits b1' have "stream_bits (buffer out) @ pending_bits enc seq =
          stream_bits (buffer (output_buf st2)) @ code_bits (overflow_bits (encoder st2)) @
              seq_bits (coder (encoder st1)) rest" by simp
      from stream_bits_append_eq[OF this] room full cap cap1
      obtain zs where zs: "buffer (output_buf st2) = buffer out @ zs"
        "pending_bits enc seq = stream_bits zs @ code_bits (overflow_bits (encoder st2)) @
              seq_bits (coder (encoder st1)) rest"
        by auto
      show ?thesis
        using Inr e e' full cap cap1 cd cd1 ep ep1 o32 sub zs l
        by (simp add: call call_post_def pending_bits_def)
    next
      case u2: (Inr u2)
      with ls l have rest: "rest = []" and inv2: "est_inv st2"
        and b2: "est_bits st2 = est_bits st1 @ seq_bits (coder (encoder st1)) seq"
        and e2: "encoder st2 = encoder st1"
        and cap2: "capacity (output_buf st2) = capacity (output_buf st1)"
        by (simp_all add: loop_post_def)
      let ?st3 = "aws_huffman_encode_eos st2"
      let ?P = "pending_bits enc seq"
      from encode_eos_spec[OF inv2] e2
      have b3: "stream_bits (buffer (output_buf ?st3)) =
           est_bits st2 @ word_bits (unat (bit_pos st2) mod 8) (eos_padding (encoder st1))"
        and cap3: "capacity (output_buf ?st3) = capacity (output_buf st2)"
        and cd3: "coder (encoder ?st3) = coder (encoder st1)"
        and ep3: "eos_padding (encoder ?st3) = eos_padding (encoder st1)"
        and z3: "num_bits (overflow_bits (encoder ?st3)) = 0 \<or> encoder ?st3 = encoder st1"
        by simp_all
      from z3 z1 have z3': "num_bits (overflow_bits (encoder ?st3)) = 0" by auto
      from b2 b1' have b2': "est_bits st2 = stream_bits (buffer out) @ ?P" by simp
      from inv2 have q: "1 \<le> unat (bit_pos st2)" "unat (bit_pos st2) \<le> 8"
        by (simp_all add: est_inv_def)
      from arg_cong[OF b2', of length] q
      have "8 * length (buffer (output_buf st2)) + (8 - unat (bit_pos st2)) =
              8 * length (buffer out) + length ?P"
        by (simp add: est_bits_def)
      from pad_arith[OF q this] have k: "unat (bit_pos st2) mod 8 = eos_pad_len (length ?P)"
        unfolding eos_pad_len_def .
      let ?pad = "word_bits (eos_pad_len (length ?P)) (eos_padding enc)"
      from b3 b2' k ep1 have b3': "stream_bits (buffer out) @ (?P @ ?pad) =
          stream_bits (buffer (output_buf ?st3)) @ []" by simp
      from arg_cong[OF b3', of length]
      have "length (buffer out) \<le> length (buffer (output_buf ?st3))" by simp
      from stream_bits_append_eq[OF b3' this]
      obtain zs where zs: "buffer (output_buf ?st3) = buffer out @ zs" "?P @ ?pad = stream_bits zs"
        by auto
      show ?thesis
        using Inr u2 rest l cap3 cap2 cap1 cd3 cd1 ep3 ep1 z3' zs
        by (simp add: call call_post_def Let_def)
    qed
  qed
qed

lemma encoded_length_loop_eq:
  "aws_huffman_get_encoded_length_loop enc seq n = n + length (seq_bits (coder enc) seq)"
  by (induction seq arbitrary: n) (simp_all add: Let_def)

lemma length_seq_bits:
  "length (seq_bits c seq) = sum_list (map (\<lambda>s. unat (num_bits (encode c s))) seq)"
  by (induction seq) simp_all

lemma div8_plus7:
  fixes n :: nat
  shows "(n + 7) div 8 = n div 8 + (if n mod 8 = 0 then 0 else 1)"
proof -
  define q r where "q = n div 8" and "r = n mod 8"
  have n: "n = 8 * q + r" and r: "r < 8" by (simp_all add: q_def r_def)
  have "(n + 7) div 8 = (r + 7 + q * 8) div 8" by (simp add: n)
  also have "\<dots> = (r + 7) div 8 + q" by simp
  also have "(r + 7) div 8 = (if r = 0 then 0 else 1)"
  proof (cases "r = 0")
    case True then show ?thesis by simp
  next
    case False
    then have "(r + 7) div 8 = 1" using r by (intro div_nat_eqI) simp_all
    with False show ?thesis by simp
  qed
  finally show ?thesis by (simp add: q_def r_def)
qed

lemma ceil8: "(if (n::nat) mod 8 \<noteq> 0 then n div 8 + 1 else n div 8) = (n + 7) div 8"
  by (simp add: div8_plus7)

lemma eos_pad_len_round_nat: "(n::nat) + (8 - n mod 8) mod 8 = 8 * ((n + 7) div 8)"
proof -
  define q r where "q = n div 8" and "r = n mod 8"
  have n: "n = 8 * q + r" and r: "r < 8" by (simp_all add: q_def r_def)
  have d: "(n + 7) div 8 = q + (if r = 0 then 0 else 1)" by (simp add: div8_plus7 q_def r_def)
  show ?thesis
  proof (cases "r = 0")
    case True
    then show ?thesis unfolding d using n by (simp add: r_def[symmetric])
  next
    case False
    then have "(8 - r) mod 8 = 8 - r" by simp
    then show ?thesis unfolding d using n r False by (simp add: r_def[symmetric])
  qed
qed

lemma encoded_length_eq:
  "aws_huffman_get_encoded_length enc seq = (length (seq_bits (coder enc) seq) + 7) div 8"
  unfolding aws_huffman_get_encoded_length_def encoded_length_loop_eq Let_def
  by (simp add: div8_plus7)

lemma eos_pad_len_round: "n + eos_pad_len n = 8 * ((n + 7) div 8)"
  unfolding eos_pad_len_def by (rule eos_pad_len_round_nat)

lemma call_success_length:
  assumes "call_post enc seq out (Inr (), enc', rest, out')"
  shows "length (buffer out') = length (buffer out) + (length (pending_bits enc seq) + 7) div 8"
proof -
  from assms obtain bytes where b: "buffer out' = buffer out @ bytes"
    and s: "stream_bits bytes = pending_bits enc seq @
               word_bits (eos_pad_len (length (pending_bits enc seq))) (eos_padding enc)"
    by (auto simp: call_post_def)
  from arg_cong[OF s, of length]
  have "8 * length bytes = length (pending_bits enc seq) + eos_pad_len (length (pending_bits enc seq))"
    by simp
  then have "length bytes = (length (pending_bits enc seq) + 7) div 8"
    by (simp add: eos_pad_len_round)
  with b show ?thesis by simp
qed

lemma encode_loop_append:
  "aws_huffman_encode_loop st (xs @ ys) =
     (case aws_huffman_encode_loop st xs of
        (Inl e, st', r) \<Rightarrow> (Inl e, st', r @ ys)
      | (Inr u, st', r) \<Rightarrow> aws_huffman_encode_loop st' ys)"
  by (induction xs arbitrary: st) (simp_all add: Let_def split: prod.splits sum.splits)

lemma encode_reaches:
  assumes ok: "codes_ok (coder enc) pre"
      and ovf: "unat (num_bits (overflow_bits enc)) \<le> 32"
      and room: "length (buffer out) + length (pending_bits enc pre) div 8 < capacity out"
      and st0: "st0 = \<lparr>encoder = enc, output_buf = out, working = 0, bit_pos = 8\<rparr>"
  shows "\<exists>st1 st2 zs. aws_huffman_encode_overflow st0 = (Inr (), st1) \<and>
           aws_huffman_encode_loop st1 pre = (Inr (), st2, []) \<and>
           est_inv st2 \<and>
           coder (encoder st2) = coder enc \<and> eos_padding (encoder st2) = eos_padding enc \<and>
           num_bits (overflow_bits (encoder st2)) = 0 \<and>
           capacity (output_buf st2) = capacity out \<and>
           buffer (output_buf st2) = buffer out @ zs \<and>
           length zs = length (pending_bits enc pre) div 8 \<and>
           stream_bits zs = take (8 * (length (pending_bits enc pre) div 8)) (pending_bits enc pre)"
proof -
  let ?P = "pending_bits enc pre"
  from room have room0: "length (buffer out) < capacity out" by simp
  note os = encode_overflow_spec[OF room0 ovf st0]
  obtain r1 st1 where o: "aws_huffman_encode_overflow st0 = (r1, st1)"
    by (cases "aws_huffman_encode_overflow st0")
  have r1: "r1 = Inr ()"
  proof (cases r1)
    case (Inl e)
    with os o have full: "length (buffer (output_buf st1)) = capacity (output_buf st1)"
      and cap: "capacity (output_buf st1) = capacity out"
      and bits: "stream_bits (buffer (output_buf st1)) @ code_bits (overflow_bits (encoder st1)) =
               stream_bits (buffer out) @ code_bits (overflow_bits enc)"
      by simp_all
    from stream_bits_append_eq[OF bits[symmetric]] room0 full cap
    obtain zs where zs: "buffer (output_buf st1) = buffer out @ zs"
        "code_bits (overflow_bits enc) = stream_bits zs @ code_bits (overflow_bits (encoder st1))"
      by auto
    from arg_cong[OF zs(2), of length] have "8 * length zs \<le> length ?P"
      by (simp add: pending_bits_def)
    then have "length zs \<le> length ?P div 8" by simp
    with zs(1) full cap room show ?thesis by simp
  qed simp
  with os o have inv1: "est_inv st1"
    and b1: "est_bits st1 = stream_bits (buffer out) @ code_bits (overflow_bits enc)"
    and cd1: "coder (encoder st1) = coder enc" and ep1: "eos_padding (encoder st1) = eos_padding enc"
    and z1: "num_bits (overflow_bits (encoder st1)) = 0"
    and cap1: "capacity (output_buf st1) = capacity out"
    by simp_all
  from ok cd1 have ok1: "codes_ok (coder (encoder st1)) pre" by simp
  note ls = encode_loop_spec[OF inv1 ok1]
  obtain r2 st2 rest where l: "aws_huffman_encode_loop st1 pre = (r2, st2, rest)"
    by (cases "aws_huffman_encode_loop st1 pre")
  have b1': "est_bits st1 @ seq_bits (coder (encoder st1)) pre = stream_bits (buffer out) @ ?P"
    using b1 cd1 by (simp add: pending_bits_def)
  have r2: "r2 = Inr ()"
  proof (cases r2)
    case (Inl e)
    with ls l have full: "length (buffer (output_buf st2)) = capacity (output_buf st2)"
      and cap: "capacity (output_buf st2) = capacity (output_buf st1)"
      and bits: "stream_bits (buffer (output_buf st2)) @ code_bits (overflow_bits (encoder st2)) @
              seq_bits (coder (encoder st1)) rest = est_bits st1 @ seq_bits (coder (encoder st1)) pre"
      by (simp_all add: loop_post_def)
    from bits b1' have "stream_bits (buffer out) @ ?P =
          stream_bits (buffer (output_buf st2)) @ code_bits (overflow_bits (encoder st2)) @
              seq_bits (coder (encoder st1)) rest" by simp
    from stream_bits_append_eq[OF this] room0 full cap cap1
    obtain zs where zs: "buffer (output_buf st2) = buffer out @ zs"
        "?P = stream_bits zs @ code_bits (overflow_bits (encoder st2)) @
              seq_bits (coder (encoder st1)) rest"
      by auto
    from arg_cong[OF zs(2), of length] have "8 * length zs \<le> length ?P" by simp
    then have "length zs \<le> length ?P div 8" by simp
    with zs(1) full cap cap1 room show ?thesis by simp
  qed simp
  with ls l have rest: "rest = []" and inv2: "est_inv st2"
    and b2: "est_bits st2 = est_bits st1 @ seq_bits (coder (encoder st1)) pre"
    and e2: "encoder st2 = encoder st1"
    and cap2: "capacity (output_buf st2) = capacity (output_buf st1)"
    by (simp_all add: loop_post_def)
  let ?part = "take (8 - unat (bit_pos st2)) (word_bits 8 (working st2))"
  from inv2 have q: "1 \<le> unat (bit_pos st2)" "unat (bit_pos st2) \<le> 8"
    by (simp_all add: est_inv_def)
  then have lp: "length ?part < 8" by simp
  from b2 b1' have eq: "stream_bits (buffer out) @ ?P = stream_bits (buffer (output_buf st2)) @ ?part"
    by (simp add: est_bits_def)
  from arg_cong[OF eq, of length] lp
  have "length (buffer out) \<le> length (buffer (output_buf st2))" by simp
  from stream_bits_append_eq[OF eq this]
  obtain zs where zs: "buffer (output_buf st2) = buffer out @ zs" "?P = stream_bits zs @ ?part"
    by auto
  from arg_cong[OF zs(2), of length] have len: "length ?P = 8 * length zs + length ?part" by simp
  with lp have lz: "length zs = length ?P div 8" by simp
  from zs(2) have "take (8 * length zs) ?P = stream_bits zs"
    by (metis append_eq_conv_conj length_stream_bits)
  with lz have tk: "stream_bits zs = take (8 * (length ?P div 8)) ?P" by simp
  show ?thesis
    using o r1 l r2 rest inv2 e2 cd1 ep1 z1 cap2 cap1 zs(1) lz tk by auto
qed

lemma eos_pad_len_add8 [simp]: "eos_pad_len (8 * m + n) = eos_pad_len n"
  by (simp add: eos_pad_len_def)

lemma codes_ok_subset: "codes_ok c seq \<Longrightarrow> set rest \<subseteq> set seq \<Longrightarrow> codes_ok c rest"
  by (auto simp: codes_ok_def)

lemma encode_resume_spec:
  assumes "codes_ok (coder enc) seq" "unat (num_bits (overflow_bits enc)) \<le> 32"
      and "encode_resume enc seq caps = Some bytes"
  shows "stream_bits bytes = pending_bits enc seq @
           word_bits (eos_pad_len (length (pending_bits enc seq))) (eos_padding enc)"
  using assms
proof (induction caps arbitrary: enc seq bytes)
  case Nil
  then show ?case by simp
next
  case (Cons cap caps)
  let ?out = "\<lparr>buffer = [], capacity = cap\<rparr>"
  obtain r enc' rest out' where c: "aws_huffman_encode enc seq ?out = (r, enc', rest, out')"
    by (cases "aws_huffman_encode enc seq ?out") auto
  from encode_call_spec[OF Cons.prems(1,2), of ?out] c
  have cp: "call_post enc seq ?out (r, enc', rest, out')" by simp
  show ?case
  proof (cases r)
    case (Inr u)
    with Cons.prems(3) c have "bytes = buffer out'" by simp
    with cp Inr show ?thesis by (simp add: call_post_def)
  next
    case (Inl e)
    with cp have e: "e = AWS_ERROR_SHORT_BUFFER"
      and cd: "coder enc' = coder enc" and ep: "eos_padding enc' = eos_padding enc"
      and o32: "unat (num_bits (overflow_bits enc')) \<le> 32" and sub: "set rest \<subseteq> set seq"
      and b: "stream_bits (buffer out') @ pending_bits enc' rest = pending_bits enc seq"
      by (auto simp: call_post_def)
    from Cons.prems(3) c Inl e obtain bytes' where r: "encode_resume enc' rest caps = Some bytes'"
      and bytes: "bytes = buffer out' @ bytes'" by auto
    have ok': "codes_ok (coder enc') rest" using Cons.prems(1) sub cd by (simp add: codes_ok_subset)
    note ih = Cons.IH[OF ok' o32 r]
    from arg_cong[OF b, of length]
    have "length (pending_bits enc seq) = 8 * length (buffer out') + length (pending_bits enc' rest)"
      by simp
    then have "eos_pad_len (length (pending_bits enc seq)) = eos_pad_len (length (pending_bits enc' rest))"
      by simp
    with ih bytes b ep show ?thesis by simp
  qed
qed

lemma encode_resume_completes:
  assumes "codes_ok (coder enc) seq" "unat (num_bits (overflow_bits enc)) \<le> 32"
      and "\<forall>cap \<in> set caps. 0 < cap"
      and "length (pending_bits enc seq) div 8 < length caps"
  shows "\<exists>bytes. encode_resume enc seq caps = Some bytes"
  using assms
proof (induction caps arbitrary: enc seq)
  case Nil
  then show ?case by simp
next
  case (Cons cap caps)
  let ?out = "\<lparr>buffer = [], capacity = cap\<rparr>"
  obtain r enc' rest out' where c: "aws_huffman_encode enc seq ?out = (r, enc', rest, out')"
    by (cases "aws_huffman_encode enc seq ?out") auto
  from encode_call_spec[OF Cons.prems(1,2), of ?out] c
  have cp: "call_post enc seq ?out (r, enc', rest, out')" by simp
  show ?case
  proof (cases r)
    case (Inr u)
    with c show ?thesis by simp
  next
    case (Inl e)
    with cp have e: "e = AWS_ERROR_SHORT_BUFFER"
      and full: "length (buffer out') = capacity out'" and cap: "capacity out' = cap"
      and cd: "coder enc' = coder enc"
      and o32: "unat (num_bits (overflow_bits enc')) \<le> 32" and sub: "set rest \<subseteq> set seq"
      and b: "stream_bits (buffer out') @ pending_bits enc' rest = pending_bits enc seq"
      by (auto simp: call_post_def)
    have ok': "codes_ok (coder enc') rest" using Cons.prems(1) sub cd by (simp add: codes_ok_subset)
    from Cons.prems(3) have pos: "0 < cap" and poss: "\<forall>cap \<in> set caps. 0 < cap" by simp_all
    from arg_cong[OF b, of length] full cap
    have "length (pending_bits enc seq) = 8 * cap + length (pending_bits enc' rest)"
      by simp
    then have "length (pending_bits enc seq) div 8 = cap + length (pending_bits enc' rest) div 8"
      by simp
    with pos Cons.prems(4) have "length (pending_bits enc' rest) div 8 < length caps" by simp
    from Cons.IH[OF ok' o32 poss this] obtain bytes' where "encode_resume enc' rest caps = Some bytes'"
      by blast
    with c Inl e show ?thesis by simp
  qed
qed

lemmas encode_eval_simps =
  aws_huffman_encode_def aws_huffman_encode_overflow_def aws_huffman_encode_eos_def
  encode_write_bit_pattern_def encode_write_bit_pattern_loop.simps aws_byte_buf_write_u8_def
  aws_huffman_encoder_init_def abc_encode_def Let_def

lemma abc_encode_AAB:
  "aws_huffman_encode (aws_huffman_encoder_init abc_coder) [0x41, 0x41, 0x42]
       \<lparr>buffer = [], capacity = 4\<rparr> =
     (Inr (), aws_huffman_encoder_init abc_coder, [], \<lparr>buffer = [0x2F], capacity = 4\<rparr>)"
  by (simp add: encode_eval_simps)

lemma abc_encode_A_eos_F0:
  "aws_huffman_encode ((aws_huffman_encoder_init abc_coder)\<lparr>eos_padding := 0xF0\<rparr>) [0x41]
       \<lparr>buffer = [], capacity = 4\<rparr> =
     (Inr (), (aws_huffman_encoder_init abc_coder)\<lparr>eos_padding := 0xF0\<rparr>, [],
      \<lparr>buffer = [0x70], capacity = 4\<rparr>)"
  by (simp add: encode_eval_simps)

lemma abc_encode_A_FF:
  "aws_huffman_encode (aws_huffman_encoder_init abc_coder) [0x41, 0xFF]
       \<lparr>buffer = [], capacity = 4\<rparr> =
     (Inl AWS_ERROR_COMPRESSION_UNKNOWN_SYMBOL, aws_huffman_encoder_init abc_coder, [],
      \<lparr>buffer = [], capacity = 4\<rparr>)"
  by (simp add: encode_eval_simps)

lemma abc_encode_full:
  "aws_huffman_encode (aws_huffman_encoder_init abc_coder) [0x41]
       \<lparr>buffer = [0], capacity = 1\<rparr> =
     (Inl AWS_ERROR_SHORT_BUFFER, aws_huffman_encoder_init abc_coder, [0x41],
      \<lparr>buffer = [0], capacity = 1\<rparr>)"
  by (simp add: encode_eval_simps)

lemma abc_encode_BBBB:
  "aws_huffman_encode (aws_huffman_encoder_init abc_coder) [0x42, 0x42, 0x42, 0x42]
       \<lparr>buffer = [], capacity = 1\<rparr> =
     (Inl AWS_ERROR_SHORT_BUFFER, aws_huffman_encoder_init abc_coder, [],
      \<lparr>buffer = [0xAA], capacity = 1\<rparr>)"
  by (simp add: encode_eval_simps)


lemma abc_encode_BBBBA_FF:
  "aws_huffman_encode (aws_huffman_encoder_init abc_coder) [0x42, 0x42, 0x42, 0x42, 0x41, 0xFF]
       \<lparr>buffer = [], capacity = 4\<rparr> =
     (Inl AWS_ERROR_COMPRESSION_UNKNOWN_SYMBOL, aws_huffman_encoder_init abc_coder, [],
      \<lparr>buffer = [0xAA], capacity = 4\<rparr>)"
  by (simp add: encode_eval_simps)

lemma fill_step_bits:
  fixes wb :: "64 word" and b :: "8 word"
  assumes n: "n < 32" and z: "take_bit (64 - n) wb = 0"
  defines "wb' \<equiv> wb OR push_bit (64 - 8 - n) (ucast b)"
  shows "take (n + 8) (word_bits 64 wb') = take n (word_bits 64 wb) @ word_bits 8 b"
    and "take_bit (64 - (n + 8)) wb' = 0"
proof -
  have bitw: "bit wb' j = (bit wb j \<or> (56 - n \<le> j \<and> j < 64 - n \<and> bit b (j - (56 - n))))"
    if "j < 64" for j
    using that n unfolding wb'_def by (auto simp: bit_simps dest: bit_imp_le_length)
  have low: "\<not> bit wb j" if "j < 64 - n" for j
    using z that take_bit_0_bit by blast
  show "take (n + 8) (word_bits 64 wb') = take n (word_bits 64 wb) @ word_bits 8 b"
  proof (rule nth_equalityI)
    show "length (take (n + 8) (word_bits 64 wb')) = length (take n (word_bits 64 wb) @ word_bits 8 b)"
      using n by simp
  next
    fix i assume "i < length (take (n + 8) (word_bits 64 wb'))"
    then have i: "i < n + 8" using n by simp
    then have i64: "i < 64" using n by simp
    show "take (n + 8) (word_bits 64 wb') ! i = (take n (word_bits 64 wb) @ word_bits 8 b) ! i"
    proof (cases "i < n")
      case True
      then have "\<not> 63 - i < 64 - n" using n by simp
      then have "bit wb' (63 - i) = bit wb (63 - i)" using bitw[of "63 - i"] by auto
      then show ?thesis using True i i64 n by (simp add: nth_append)
    next
      case False
      then have a: "63 - i < 64 - n" "56 - n \<le> 63 - i" using i n by simp_all
      have c: "63 - i - (56 - n) = 7 - (i - n)" using False i n by simp
      from low[OF a(1)] a bitw[of "63 - i"] have "bit wb' (63 - i) = bit b (63 - i - (56 - n))"
        by simp
      then show ?thesis using False i i64 n c by (simp add: nth_append)
    qed
  qed
  show "take_bit (64 - (n + 8)) wb' = 0"
  proof (rule bit_word_eqI)
    fix j assume "j < LENGTH(64)"
    then have j64: "j < 64" by simp
    show "bit (take_bit (64 - (n + 8)) wb') j = bit (0 :: 64 word) j"
    proof (cases "j < 64 - (n + 8)")
      case True
      then have "j < 64 - n" "\<not> 56 - n \<le> j" by simp_all
      with low[of j] bitw[OF j64] have "\<not> bit wb' j" by simp
      then show ?thesis by (simp add: bit_take_bit_iff)
    next
      case False
      then show ?thesis by (simp add: bit_take_bit_iff)
    qed
  qed
qed

lemma fill_spec:
  "dec_inv d \<Longrightarrow> decode_fill_working_bits d c = (d1, c1) \<Longrightarrow>
     dec_inv d1 \<and> dec_bits d1 c1 = dec_bits d c \<and>
     (c1 = [] \<or> 32 \<le> unat (num_bits_d d1)) \<and> coder_d d1 = coder_d d"
proof (induction c arbitrary: d)
  case Nil
  then show ?case by auto
next
  case (Cons b c)
  show ?case
  proof (cases "num_bits_d d < 32")
    case True
    let ?n = "unat (num_bits_d d)"
    from True have lt: "?n < 32" by (simp add: word_less_nat_alt)
    then have u: "unat (num_bits_d d + 8) = ?n + 8"
      by (simp add: unat_word_ariths)
    let ?d' = "d\<lparr>working_bits := working_bits d OR push_bit (64 - 8 - ?n) (ucast b),
                  num_bits_d := num_bits_d d + 8\<rparr>"
    from Cons.prems(1) have z: "take_bit (64 - ?n) (working_bits d) = 0" by (simp add: dec_inv_def)
    note st = fill_step_bits[OF lt z, of b]
    have inv': "dec_inv ?d'" using st(2) lt u by (simp add: dec_inv_def)
    have bits': "dec_bits ?d' c = dec_bits d (b # c)"
      using st(1) u by (simp add: dec_bits_def)
    from Cons.prems(2) True have "decode_fill_working_bits ?d' c = (d1, c1)"
      by (simp add: Let_def)
    from Cons.IH[OF inv' this] bits' show ?thesis by simp
  next
    case False
    then have "32 \<le> unat (num_bits_d d)" by (simp add: word_less_nat_alt)
    with Cons.prems False show ?thesis by auto
  qed
qed

lemma window_bits:
  fixes wb :: "64 word"
  shows "word_bits 32 (ucast (drop_bit 32 wb) :: 32 word) = take 32 (word_bits 64 wb)"
  by (rule nth_equalityI) (auto simp: bit_simps)

lemma low_bits_zero:
  fixes wb :: "64 word"
  assumes "take_bit (64 - n) wb = 0" "n \<le> 64"
  shows "word_bits 64 wb = take n (word_bits 64 wb) @ replicate (64 - n) False"
proof (rule nth_equalityI)
  show "length (word_bits 64 wb) = length (take n (word_bits 64 wb) @ replicate (64 - n) False)"
    using assms(2) by simp
next
  fix i assume "i < length (word_bits 64 wb)"
  then have i: "i < 64" by simp
  show "word_bits 64 wb ! i = (take n (word_bits 64 wb) @ replicate (64 - n) False) ! i"
  proof (cases "i < n")
    case True
    then show ?thesis using i assms(2) by (simp add: nth_append)
  next
    case False
    then have "63 - i < 64 - n" using i by simp
    then have "\<not> bit wb (63 - i)" using assms(1) take_bit_0_bit by blast
    then show ?thesis using False i assms(2) by (simp add: nth_append)
  qed
qed

lemma window_spec:
  assumes "dec_inv d" "c = [] \<or> 32 \<le> unat (num_bits_d d)"
  shows "word_bits 32 (ucast (drop_bit 32 (working_bits d)) :: 32 word) =
           take 32 (dec_bits d c @ replicate 32 False)"
proof -
  let ?n = "unat (num_bits_d d)" and ?X = "word_bits 64 (working_bits d)"
  from assms(1) have n: "?n \<le> 39" and z: "take_bit (64 - ?n) (working_bits d) = 0"
    by (simp_all add: dec_inv_def)
  show ?thesis
  proof (cases "32 \<le> ?n")
    case True
    then have "take 32 (dec_bits d c @ replicate 32 False) = take 32 ?X"
      by (simp add: dec_bits_def min_def)
    then show ?thesis by (simp add: window_bits)
  next
    case False
    with assms(2) have c: "c = []" by simp
    have "?X = take ?n ?X @ replicate (64 - ?n) False"
      using low_bits_zero[OF z] n by simp
    then have "take 32 ?X = take 32 (take ?n ?X @ replicate (64 - ?n) False)" by simp
    also have "\<dots> = take 32 (take ?n ?X @ replicate 32 False)"
      using False n by (simp add: min_def)
    finally show ?thesis using c by (simp add: window_bits dec_bits_def)
  qed
qed

lemma consume_bits:
  fixes wb :: "64 word"
  assumes "k \<le> n" "n \<le> 39" "take_bit (64 - n) wb = 0"
  shows "take (n - k) (word_bits 64 (push_bit k wb)) = drop k (take n (word_bits 64 wb))"
    and "take_bit (64 - (n - k)) (push_bit k wb) = 0"
proof -
  show "take (n - k) (word_bits 64 (push_bit k wb)) = drop k (take n (word_bits 64 wb))"
  proof (rule nth_equalityI)
    show "length (take (n - k) (word_bits 64 (push_bit k wb))) = length (drop k (take n (word_bits 64 wb)))"
      using assms(1,2) by simp
  next
    fix i assume "i < length (take (n - k) (word_bits 64 (push_bit k wb)))"
    then have i: "i < n - k" using assms(1,2) by simp
    then have a: "k \<le> 63 - i" "63 - i - k = 63 - (k + i)" "k + i < 64" "i < 64" "k + i < n"
      "63 - i < 64"
      using assms(1,2) by simp_all
    show "take (n - k) (word_bits 64 (push_bit k wb)) ! i = drop k (take n (word_bits 64 wb)) ! i"
      using i a assms(1,2) by (simp add: bit_simps)
  qed
  show "take_bit (64 - (n - k)) (push_bit k wb) = 0"
  proof (rule bit_word_eqI)
    fix j assume "j < LENGTH(64)"
    then have j64: "j < 64" by simp
    show "bit (take_bit (64 - (n - k)) (push_bit k wb)) j = bit (0 :: 64 word) j"
    proof (cases "j < 64 - (n - k) \<and> k \<le> j")
      case True
      then have "j < 64 - (n - k)" "k \<le> j" by simp_all
      then have "j - k < 64 - n" using assms(1,2) by linarith
      then have "\<not> bit wb (j - k)" using assms(3) take_bit_0_bit by blast
      then show ?thesis by (simp add: bit_simps)
    next
      case False
      then show ?thesis by (auto simp: bit_simps)
    qed
  qed
qed

lemma consume_spec:
  assumes inv: "dec_inv d" and k: "unat k \<le> unat (num_bits_d d)"
  defines "d2 \<equiv> d\<lparr>working_bits := push_bit (unat k) (working_bits d),
                     num_bits_d := num_bits_d d - k\<rparr>"
  shows "dec_inv d2" and "dec_bits d2 c = drop (unat k) (dec_bits d c)"
proof -
  let ?n = "unat (num_bits_d d)"
  from inv have n: "?n \<le> 39" and z: "take_bit (64 - ?n) (working_bits d) = 0"
    by (simp_all add: dec_inv_def)
  have sub: "unat (num_bits_d d - k) = ?n - unat k"
    using k by (simp add: unat_sub word_le_nat_alt)
  note cb = consume_bits[OF k n z]
  show "dec_inv d2" using cb(2) sub n by (simp add: dec_inv_def d2_def)
  show "dec_bits d2 c = drop (unat k) (dec_bits d c)"
    using cb(1) sub k n by (simp add: dec_bits_def d2_def)
qed

lemma decode_loop_emit:
  assumes "decode_fill_working_bits d c = (d1, c1)"
      and "decode (coder_d d1) (ucast (drop_bit 32 (working_bits d1))) = (k, s)"
      and "k \<noteq> 0" "unat k \<le> b" "length (buffer out) < capacity out"
  shows "aws_huffman_decode_loop d c out b =
           (if b - unat k = 0
            then (Inr (), d1\<lparr>working_bits := push_bit (unat k) (working_bits d1),
                              num_bits_d := num_bits_d d1 - k\<rparr>, c1,
                  out\<lparr>buffer := buffer out @ [s]\<rparr>)
            else aws_huffman_decode_loop
                   (d1\<lparr>working_bits := push_bit (unat k) (working_bits d1),
                       num_bits_d := num_bits_d d1 - k\<rparr>) c1
                   (out\<lparr>buffer := buffer out @ [s]\<rparr>) (b - unat k))"
  using assms
  by (simp add: aws_huffman_decode_loop.simps[of d c out b] Let_def aws_byte_buf_write_u8_def)

lemma decode_loop_stop:
  assumes "decode_fill_working_bits d c = (d1, c1)"
      and "decode (coder_d d1) (ucast (drop_bit 32 (working_bits d1))) = (k, s)"
      and "k = 0 \<or> b < unat k \<or> length (buffer out) = capacity out"
  shows "\<exists>r. aws_huffman_decode_loop d c out b = (r, d1, c1, out) \<and>
             (k = 0 \<and> 32 \<le> b \<longleftrightarrow> r = Inl AWS_ERROR_COMPRESSION_UNKNOWN_SYMBOL) \<and>
             (k = 0 \<and> b < 32 \<or> k \<noteq> 0 \<and> b < unat k \<longleftrightarrow> r = Inr ())"
  using assms
  by (auto simp: aws_huffman_decode_loop.simps[of d c out b] Let_def)

lemma decode_loop_output:
  assumes "length (buffer out) \<le> capacity out"
      and "aws_huffman_decode_loop d c out b = (r, d', c', out')"
  shows "\<exists>extra. out' = out\<lparr>buffer := buffer out @ extra\<rparr> \<and> length (buffer out') \<le> capacity out"
  using assms
proof (induction b arbitrary: d c out rule: less_induct)
  case (less b)
  obtain d1 c1 where fill: "decode_fill_working_bits d c = (d1, c1)"
    by (cases "decode_fill_working_bits d c")
  obtain k s where dec: "decode (coder_d d1) (ucast (drop_bit 32 (working_bits d1))) = (k, s)"
    by (cases "decode (coder_d d1) (ucast (drop_bit 32 (working_bits d1)))")
  show ?case
  proof (cases "k = 0 \<or> b < unat k \<or> length (buffer out) = capacity out")
    case True
    from decode_loop_stop[OF fill dec True] less.prems(2) have "out' = out" by auto
    then have "out' = out\<lparr>buffer := buffer out @ []\<rparr>" by simp
    with less.prems(1) show ?thesis by (metis \<open>out' = out\<close>)
  next
    case False
    then have k0: "k \<noteq> 0" and kb: "unat k \<le> b" and room: "length (buffer out) < capacity out"
      using less.prems(1) by auto
    let ?d2 = "d1\<lparr>working_bits := push_bit (unat k) (working_bits d1),
                              num_bits_d := num_bits_d d1 - k\<rparr>"
    let ?o = "out\<lparr>buffer := buffer out @ [s]\<rparr>"
    note step = decode_loop_emit[OF fill dec k0 kb room]
    show ?thesis
    proof (cases "b - unat k = 0")
      case True
      with step less.prems(2) have "out' = ?o" by simp
      moreover have "length (buffer ?o) \<le> capacity out" using room by simp
      ultimately show ?thesis by blast
    next
      case nz: False
      with step less.prems(2) have rec: "aws_huffman_decode_loop ?d2 c1 ?o (b - unat k) = (r, d', c', out')"
        by simp
      have "0 < unat k" using k0 by (simp add: unat_gt_0)
      then have lt: "b - unat k < b" using kb by linarith
      have wf: "length (buffer ?o) \<le> capacity ?o" using room by simp
      from less.IH[OF lt wf rec] obtain extra where
        "out' = ?o\<lparr>buffer := buffer ?o @ extra\<rparr>" "length (buffer out') \<le> capacity ?o" by blast
      then have "out' = out\<lparr>buffer := buffer out @ (s # extra)\<rparr>"
        "length (buffer out') \<le> capacity out" by simp_all
      then show ?thesis by blast
    qed
  qed
qed

lemma length_dec_bits: "dec_inv d \<Longrightarrow> length (dec_bits d c) = unat (num_bits_d d) + 8 * length c"
  by (simp add: dec_bits_def dec_inv_def)

lemma decode_run:
  assumes "dec_inv d"
      and "\<forall>s \<in> set seq. prefix_code_for (coder_d d) s"
      and "dec_bits d c = seq_bits (coder_d d) seq @ tail"
      and "length (seq_bits (coder_d d) seq) \<le> b"
      and "length (buffer out) + length seq \<le> capacity out"
  shows "\<exists>d2 c2. dec_inv d2 \<and> coder_d d2 = coder_d d \<and> dec_bits d2 c2 = tail \<and>
           aws_huffman_decode_loop d c out b =
             (if seq \<noteq> [] \<and> b = length (seq_bits (coder_d d) seq)
              then (Inr (), d2, c2, out\<lparr>buffer := buffer out @ seq\<rparr>)
              else aws_huffman_decode_loop d2 c2 (out\<lparr>buffer := buffer out @ seq\<rparr>)
                     (b - length (seq_bits (coder_d d) seq)))"
  using assms
proof (induction seq arbitrary: d c out b)
  case Nil
  have "dec_inv d \<and> coder_d d = coder_d d \<and> dec_bits d c = tail \<and>
           aws_huffman_decode_loop d c out b =
             (if [] \<noteq> ([] :: 8 word list) \<and> b = length (seq_bits (coder_d d) [])
              then (Inr (), d, c, out\<lparr>buffer := buffer out @ []\<rparr>)
              else aws_huffman_decode_loop d c (out\<lparr>buffer := buffer out @ []\<rparr>)
                     (b - length (seq_bits (coder_d d) [])))"
    using Nil.prems by simp
  then show ?case by blast
next
  case (Cons s seq)
  let ?c = "coder_d d"
  let ?cd = "encode ?c s"
  let ?n = "unat (num_bits ?cd)"
  from Cons.prems(2) have pc: "prefix_code_for ?c s" and pcs: "\<forall>s \<in> set seq. prefix_code_for ?c s"
    by simp_all
  from pc have nz: "num_bits ?cd \<noteq> 0" and n32: "?n \<le> 32"
    and dec_ok: "\<And>w. take ?n (word_bits 32 w) = code_bits ?cd \<Longrightarrow> decode ?c w = (num_bits ?cd, s)"
    by (simp_all add: prefix_code_for_def)
  obtain d1 c1 where fill: "decode_fill_working_bits d c = (d1, c1)"
    by (cases "decode_fill_working_bits d c")
  from fill_spec[OF Cons.prems(1) fill]
  have inv1: "dec_inv d1" and b1: "dec_bits d1 c1 = dec_bits d c"
    and fl: "c1 = [] \<or> 32 \<le> unat (num_bits_d d1)" and cd1: "coder_d d1 = ?c"
    by simp_all
  let ?w = "ucast (drop_bit 32 (working_bits d1)) :: 32 word"
  have bits: "dec_bits d1 c1 = code_bits ?cd @ (seq_bits ?c seq @ tail)"
    using b1 Cons.prems(3) by simp
  have "take ?n (word_bits 32 ?w) = take ?n (take 32 (dec_bits d1 c1 @ replicate 32 False))"
    by (simp only: window_spec[OF inv1 fl])
  also have "\<dots> = take ?n (dec_bits d1 c1 @ replicate 32 False)"
    by (simp only: take_take min_absorb1[OF n32])
  also have "\<dots> = code_bits ?cd"
    by (simp add: bits)
  finally have dec: "decode (coder_d d1) ?w = (num_bits ?cd, s)"
    using dec_ok cd1 by simp
  have kb: "?n \<le> b" using Cons.prems(4) by simp
  have room: "length (buffer out) < capacity out" using Cons.prems(5) by simp
  have kn: "?n \<le> unat (num_bits_d d1)"
  proof (cases "c1 = []")
    case True
    from arg_cong[OF bits, of length] length_dec_bits[OF inv1, of c1] True
    show ?thesis by simp
  next
    case False
    with fl n32 show ?thesis by simp
  qed
  let ?d2 = "d1\<lparr>working_bits := push_bit ?n (working_bits d1),
                  num_bits_d := num_bits_d d1 - num_bits ?cd\<rparr>"
  let ?o = "out\<lparr>buffer := buffer out @ [s]\<rparr>"
  from consume_spec(1)[OF inv1 kn] have inv2: "dec_inv ?d2" by simp
  from consume_spec(2)[OF inv1 kn, of c1] have b2: "dec_bits ?d2 c1 = seq_bits ?c seq @ tail"
    by (simp add: bits)
  have cd2: "coder_d ?d2 = ?c" using cd1 by simp
  note step = decode_loop_emit[OF fill dec nz kb room]
  show ?case
  proof (cases "b - ?n = 0")
    case True
    have "?n + length (seq_bits ?c seq) \<le> b" using Cons.prems(4) by simp
    with True have "length (seq_bits ?c seq) = 0" and bn: "b = ?n" by linarith+
    have "seq = []"
    proof (cases seq)
      case (Cons s' seq')
      with pcs have "num_bits (encode ?c s') \<noteq> 0" by (simp add: prefix_code_for_def)
      then have "0 < unat (num_bits (encode ?c s'))" by (simp add: unat_gt_0)
      with \<open>length (seq_bits ?c seq) = 0\<close> Cons show ?thesis by simp
    qed simp
    with step True bn inv2 cd2 b2 show ?thesis by auto
  next
    case False
    with step have eq: "aws_huffman_decode_loop d c out b =
        aws_huffman_decode_loop ?d2 c1 ?o (b - ?n)" by simp
    have pcs2: "\<forall>s \<in> set seq. prefix_code_for (coder_d ?d2) s" using pcs cd1 by simp
    have b2': "dec_bits ?d2 c1 = seq_bits (coder_d ?d2) seq @ tail" using b2 cd1 by simp
    have le2: "length (seq_bits (coder_d ?d2) seq) \<le> b - ?n" using Cons.prems(4) cd1 by simp
    have cap2: "length (buffer ?o) + length seq \<le> capacity ?o" using Cons.prems(5) by simp
    from Cons.IH[OF inv2 pcs2 b2' le2 cap2]
    obtain d3 c3 where inv3: "dec_inv d3" and cd3: "coder_d d3 = coder_d ?d2"
      and b3: "dec_bits d3 c3 = tail"
      and run: "aws_huffman_decode_loop ?d2 c1 ?o (b - ?n) =
             (if seq \<noteq> [] \<and> b - ?n = length (seq_bits (coder_d ?d2) seq)
              then (Inr (), d3, c3, ?o\<lparr>buffer := buffer ?o @ seq\<rparr>)
              else aws_huffman_decode_loop d3 c3 (?o\<lparr>buffer := buffer ?o @ seq\<rparr>)
                     (b - ?n - length (seq_bits (coder_d ?d2) seq)))"
      by blast
    have o: "?o\<lparr>buffer := buffer ?o @ seq\<rparr> = out\<lparr>buffer := buffer out @ s # seq\<rparr>" by simp
    have "aws_huffman_decode_loop d c out b =
             (if s # seq \<noteq> [] \<and> b = length (seq_bits ?c (s # seq))
              then (Inr (), d3, c3, out\<lparr>buffer := buffer out @ s # seq\<rparr>)
              else aws_huffman_decode_loop d3 c3 (out\<lparr>buffer := buffer out @ s # seq\<rparr>)
                     (b - length (seq_bits ?c (s # seq))))"
    proof (cases "b - ?n = length (seq_bits ?c seq)")
      case True
      with False have "seq \<noteq> []" by auto
      moreover have "b = length (seq_bits ?c (s # seq))" using True kb by simp
      ultimately show ?thesis using True eq run o cd1 by simp
    next
      case ne: False
      then have "b \<noteq> length (seq_bits ?c (s # seq))" using kb by simp
      with ne eq run o cd1 show ?thesis by simp
    qed
    with inv3 cd3 cd1 b3 show ?thesis by auto
  qed
qed

lemma dec_init [simp]:
  "dec_inv (aws_huffman_decoder_init c)"
  "dec_bits (aws_huffman_decoder_init c) bytes = stream_bits bytes"
  "coder_d (aws_huffman_decoder_init c) = c"
  by (simp_all add: dec_inv_def dec_bits_def aws_huffman_decoder_init_def)

lemma decode_loop_budget_zero:
  "\<exists>d1 c1. aws_huffman_decode_loop d c out 0 = (Inr (), d1, c1, out)"
proof -
  obtain d1 c1 where fill: "decode_fill_working_bits d c = (d1, c1)"
    by (cases "decode_fill_working_bits d c")
  obtain k s where dec: "decode (coder_d d1) (ucast (drop_bit 32 (working_bits d1))) = (k, s)"
    by (cases "decode (coder_d d1) (ucast (drop_bit 32 (working_bits d1)))")
  have "k = 0 \<or> 0 < unat k" by (auto simp: unat_gt_0)
  then have c: "k = 0 \<or> 0 < unat k \<or> length (buffer out) = capacity out" by blast
  from decode_loop_stop[OF fill dec c] show ?thesis by (auto simp: unat_gt_0)
qed

lemma decode_stream:
  assumes pc: "\<forall>s \<in> set seq. prefix_code_for c s"
      and bits: "stream_bits bytes = seq_bits c seq @ pad"
      and n: "length seq \<le> n"
      and b: "length (seq_bits c seq) \<le> b"
  shows "\<exists>r d' rest extra.
           aws_huffman_decode_loop (aws_huffman_decoder_init c) bytes \<lparr>buffer = [], capacity = n\<rparr> b =
             (r, d', rest, \<lparr>buffer = seq @ extra, capacity = n\<rparr>) \<and>
           length (seq @ extra) \<le> n \<and>
           (b = length (seq_bits c seq) \<longrightarrow> r = Inr () \<and> extra = [])"
proof -
  let ?d = "aws_huffman_decoder_init c" and ?out = "\<lparr>buffer = [], capacity = n\<rparr>"
  let ?o = "\<lparr>buffer = seq, capacity = n\<rparr>"
  have pc': "\<forall>s \<in> set seq. prefix_code_for (coder_d ?d) s" using pc by simp
  have bits': "dec_bits ?d bytes = seq_bits (coder_d ?d) seq @ pad" using bits by simp
  have b': "length (seq_bits (coder_d ?d) seq) \<le> b" using b by simp
  have cap: "length (buffer ?out) + length seq \<le> capacity ?out" using n by simp
  from decode_run[OF dec_init(1) pc' bits' b' cap]
  obtain d2 c2 where run0: "aws_huffman_decode_loop ?d bytes ?out b =
             (if seq \<noteq> [] \<and> b = length (seq_bits (coder_d ?d) seq)
              then (Inr (), d2, c2, ?out\<lparr>buffer := buffer ?out @ seq\<rparr>)
              else aws_huffman_decode_loop d2 c2 (?out\<lparr>buffer := buffer ?out @ seq\<rparr>)
                     (b - length (seq_bits (coder_d ?d) seq)))"
    by blast
  then have run: "aws_huffman_decode_loop ?d bytes ?out b =
             (if seq \<noteq> [] \<and> b = length (seq_bits c seq)
              then (Inr (), d2, c2, ?o)
              else aws_huffman_decode_loop d2 c2 ?o (b - length (seq_bits c seq)))"
    by simp
  show ?thesis
  proof (cases "seq \<noteq> [] \<and> b = length (seq_bits c seq)")
    case True
    with run n have "aws_huffman_decode_loop ?d bytes ?out b =
             (Inr (), d2, c2, \<lparr>buffer = seq @ [], capacity = n\<rparr>)" by simp
    with n show ?thesis by fastforce
  next
    case False
    with run have eq: "aws_huffman_decode_loop ?d bytes ?out b =
        aws_huffman_decode_loop d2 c2 ?o (b - length (seq_bits c seq))" by simp
    obtain r d' rest out' where res:
      "aws_huffman_decode_loop d2 c2 ?o (b - length (seq_bits c seq)) = (r, d', rest, out')"
      by (cases "aws_huffman_decode_loop d2 c2 ?o (b - length (seq_bits c seq))") auto
    have wf: "length (buffer ?o) \<le> capacity ?o" using n by simp
    from decode_loop_output[OF wf res] obtain extra where
      o: "out' = \<lparr>buffer = seq @ extra, capacity = n\<rparr>" and l: "length (seq @ extra) \<le> n"
      by auto
    have "b = length (seq_bits c seq) \<longrightarrow> r = Inr () \<and> extra = []"
    proof
      assume "b = length (seq_bits c seq)"
      then have "b - length (seq_bits c seq) = 0" by simp
      with decode_loop_budget_zero[of d2 c2 ?o] res o show "r = Inr () \<and> extra = []" by auto
    qed
    with eq res o l show ?thesis by auto
  qed
qed

lemma decode_loop_no_unknown:
  assumes "b < 32" "aws_huffman_decode_loop d c out b = (r, d', c', out')"
  shows "r \<noteq> Inl AWS_ERROR_COMPRESSION_UNKNOWN_SYMBOL"
  using assms
proof (induction b arbitrary: d c out rule: less_induct)
  case (less b)
  obtain d1 c1 where fill: "decode_fill_working_bits d c = (d1, c1)"
    by (cases "decode_fill_working_bits d c")
  obtain k s where dec: "decode (coder_d d1) (ucast (drop_bit 32 (working_bits d1))) = (k, s)"
    by (cases "decode (coder_d d1) (ucast (drop_bit 32 (working_bits d1)))")
  show ?case
  proof (cases "k = 0 \<or> b < unat k \<or> length (buffer out) = capacity out")
    case True
    from decode_loop_stop[OF fill dec True] less.prems show ?thesis by auto
  next
    case False
    then have k0: "k \<noteq> 0" and kb: "unat k \<le> b" and ne: "length (buffer out) \<noteq> capacity out"
      by auto
    have "0 < unat k" using k0 by (simp add: unat_gt_0)
    then have lt: "b - unat k < b" using kb by linarith
    then have lt32: "b - unat k < 32" using less.prems(1) by simp
    show ?thesis
    proof (cases "b - unat k = 0")
      case True
      with less.prems(2) fill dec k0 kb ne show ?thesis
        by (auto simp: aws_huffman_decode_loop.simps[of d c out b] Let_def)
    next
      case nz: False
      with less.prems(2) fill dec k0 kb ne obtain d2 o2 where
        "aws_huffman_decode_loop d2 c1 o2 (b - unat k) = (r, d', c', out')"
        by (auto simp: aws_huffman_decode_loop.simps[of d c out b] Let_def)
      from less.IH[OF lt lt32 this] show ?thesis .
    qed
  qed
qed

lemma decode_stream_result:
  assumes pc: "\<forall>s \<in> set seq. prefix_code_for c s"
      and bits: "stream_bits bytes = seq_bits c seq @ pad"
      and n: "length seq \<le> n"
      and b: "length (seq_bits c seq) \<le> b" and b32: "b - length (seq_bits c seq) < 32"
      and res: "aws_huffman_decode_loop (aws_huffman_decoder_init c) bytes
                  \<lparr>buffer = [], capacity = n\<rparr> b = (r, d', rest, out')"
  shows "r \<noteq> Inl AWS_ERROR_COMPRESSION_UNKNOWN_SYMBOL"
proof -
  let ?d = "aws_huffman_decoder_init c" and ?out = "\<lparr>buffer = [], capacity = n\<rparr>"
  have pc': "\<forall>s \<in> set seq. prefix_code_for (coder_d ?d) s" using pc by simp
  have bits': "dec_bits ?d bytes = seq_bits (coder_d ?d) seq @ pad" using bits by simp
  have b': "length (seq_bits (coder_d ?d) seq) \<le> b" using b by simp
  have cap: "length (buffer ?out) + length seq \<le> capacity ?out" using n by simp
  from decode_run[OF dec_init(1) pc' bits' b' cap]
  obtain d2 c2 where run0: "aws_huffman_decode_loop ?d bytes ?out b =
             (if seq \<noteq> [] \<and> b = length (seq_bits (coder_d ?d) seq)
              then (Inr (), d2, c2, ?out\<lparr>buffer := buffer ?out @ seq\<rparr>)
              else aws_huffman_decode_loop d2 c2 (?out\<lparr>buffer := buffer ?out @ seq\<rparr>)
                     (b - length (seq_bits (coder_d ?d) seq)))"
    by blast
  show ?thesis
  proof (cases "seq \<noteq> [] \<and> b = length (seq_bits c seq)")
    case True
    with run0 res show ?thesis by auto
  next
    case False
    with run0 res have "aws_huffman_decode_loop d2 c2 (?out\<lparr>buffer := buffer ?out @ seq\<rparr>)
                     (b - length (seq_bits c seq)) = (r, d', rest, out')" by simp
    from decode_loop_no_unknown[OF b32 this] show ?thesis .
  qed
qed



lemma fresh_encode_bits:
  assumes pc: "\<forall>s \<in> set seq. prefix_code_for c s"
      and enc: "aws_huffman_encode ((aws_huffman_encoder_init c)\<lparr>eos_padding := eos\<rparr>) seq
                  \<lparr>buffer = [], capacity = cap\<rparr> = (Inr (), enc', rest, out)"
  shows "stream_bits (buffer out) =
           seq_bits c seq @ word_bits (eos_pad_len (length (seq_bits c seq))) eos"
proof -
  let ?E = "(aws_huffman_encoder_init c)\<lparr>eos_padding := eos\<rparr>"
  have cd: "coder ?E = c" and ov: "overflow_bits ?E = \<lparr>pattern = 0, num_bits = 0\<rparr>"
    and ep: "eos_padding ?E = eos"
    by (simp_all add: aws_huffman_encoder_init_def)
  have ok: "codes_ok (coder ?E) seq" using pc by (simp add: codes_ok_def cd prefix_code_for_def)
  have o32: "unat (num_bits (overflow_bits ?E)) \<le> 32" by (simp add: ov)
  have p: "pending_bits ?E seq = seq_bits c seq" by (simp add: pending_bits_def ov cd code_bits_def)
  from encode_call_spec[OF ok o32, of "\<lparr>buffer = [], capacity = cap\<rparr>"] enc
  have "call_post ?E seq \<lparr>buffer = [], capacity = cap\<rparr> (Inr (), enc', rest, out)" by simp
  then show ?thesis by (auto simp: call_post_def p ep)
qed

lemma eos_pad_len_lt8: "eos_pad_len n < 8"
  by (simp add: eos_pad_len_def)

lemma word_bits_small:
  "word_bits (Suc 0) w = [bit w 0]"
  "word_bits 1 w = [bit w 0]"
  "word_bits 2 w = [bit w 1, bit w 0]"
  "word_bits 3 w = [bit w 2, bit w 1, bit w 0]"
  "word_bits 4 w = [bit w 3, bit w 2, bit w 1, bit w 0]"
  by (simp_all add: word_bits_def upt_rec)

lemma abc_prefix_code:
  "prefix_code_for abc_coder 0x41" "prefix_code_for abc_coder 0x42" "prefix_code_for abc_coder 0x43"
  by (auto simp: prefix_code_for_def abc_encode_def abc_decode_def code_bits_def take_word_bits
        word_bits_small bit_simps)

lemmas decode_eval_simps =
  aws_huffman_decode_def aws_huffman_decode_loop.simps aws_huffman_decoder_init_def
  aws_byte_buf_write_u8_def abc_decode_def Let_def

lemma abc_decode_2F_3:
  "aws_huffman_decode (aws_huffman_decoder_init abc_coder) [0x2F] \<lparr>buffer = [], capacity = 3\<rparr> =
     (Inr (), \<lparr>coder_d = abc_coder, working_bits = 0xF000000000000000, num_bits_d = 4\<rparr>, [],
      \<lparr>buffer = [0x41, 0x41, 0x42], capacity = 3\<rparr>)"
  by (simp add: decode_eval_simps)


lemma abc_decode_loop_2F_budget4:
  "aws_huffman_decode_loop (aws_huffman_decoder_init abc_coder) [0x2F] \<lparr>buffer = [], capacity = 4\<rparr> 4 =
     (Inr (), \<lparr>coder_d = abc_coder, working_bits = 0xF000000000000000, num_bits_d = 4\<rparr>, [],
      \<lparr>buffer = [0x41, 0x41, 0x42], capacity = 4\<rparr>)"
  by (simp add: decode_eval_simps)


declare decode_bits.simps [simp del]

lemma word_bits_window_of: "word_bits 32 (window_of P) = take 32 (P @ replicate 32 False)"
proof (rule nth_equalityI)
  show "length (word_bits 32 (window_of P)) = length (take 32 (P @ replicate 32 False))" by simp
next
  fix i assume "i < length (word_bits 32 (window_of P))"
  then have i: "i < 32" by simp
  let ?L = "take 32 (P @ replicate 32 False)"
  have len: "length ?L = 32" by simp
  have lt: "31 - i < length ?L" using i by simp
  have "word_bits 32 (window_of P) ! i = bit (window_of P) (31 - i)" using i by simp
  also have "\<dots> = (rev ?L ! (31 - i))"
    unfolding window_of_def using i by (auto simp add: bit_horner_sum_bit_word_iff)
  also have "\<dots> = ?L ! (length ?L - Suc (31 - i))"
    using lt by (rule rev_nth)
  also have "length ?L - Suc (31 - i) = i"
    using i by simp
  finally show "word_bits 32 (window_of P) ! i = ?L ! i" .
qed

lemma window_of_eq:
  fixes w :: "32 word"
  assumes "word_bits 32 w = take 32 (P @ replicate 32 False)"
  shows "w = window_of P"
proof -
  from assms have "word_bits 32 w = word_bits 32 (window_of P)"
    by (simp only: word_bits_window_of)
  from word_bits_inj[OF this] show ?thesis by (simp add: take_bit_word_eq_self)
qed

lemma decode_bits_nil: "decode_bits c [] out = (Inr (), [], out)"
proof -
  obtain k s where dec: "decode c (window_of []) = (k, s)" by (cases "decode c (window_of [])")
  show ?thesis
    by (simp add: decode_bits.simps[of c "[]" out] dec unat_gt_0)
qed

lemma decode_loop_refines:
  assumes "\<forall>w. unat (fst (decode (coder_d d) w)) \<le> 32"
      and "dec_inv d"
      and "length (buffer out) \<le> capacity out"
      and "b = length (dec_bits d cur)"
      and "aws_huffman_decode_loop d cur out b = (r, d', cur', out')"
  shows "decode_bits (coder_d d) (dec_bits d cur) out = (r, dec_bits d' cur', out') \<and>
         dec_inv d' \<and> coder_d d' = coder_d d \<and> (r = Inr () \<longrightarrow> cur' = [])"
  using assms
proof (induction b arbitrary: d cur out rule: less_induct)
  case (less b)
  let ?c = "coder_d d"
  let ?P = "dec_bits d cur"
  obtain d1 c1 where fill: "decode_fill_working_bits d cur = (d1, c1)"
    by (cases "decode_fill_working_bits d cur")
  from fill_spec[OF less.prems(2) fill]
  have inv1: "dec_inv d1" and b1: "dec_bits d1 c1 = ?P"
    and fl: "c1 = [] \<or> 32 \<le> unat (num_bits_d d1)" and cd1: "coder_d d1 = ?c"
    by simp_all
  let ?w = "ucast (drop_bit 32 (working_bits d1)) :: 32 word"
  have win: "?w = window_of ?P"
    using window_spec[OF inv1 fl] b1 by (intro window_of_eq) simp
  obtain k s where dec: "decode (coder_d d1) ?w = (k, s)"
    by (cases "decode (coder_d d1) ?w")
  have decP: "decode ?c (window_of ?P) = (k, s)" using dec win cd1 by simp
  have k32: "unat k \<le> 32" using less.prems(1) decP by (metis fst_conv)
  have lenP: "length ?P = b" using less.prems(4) by simp
  have len1: "b = unat (num_bits_d d1) + 8 * length c1"
    using length_dec_bits[OF inv1, of c1] b1 lenP by simp
  show ?case
  proof (cases "k = 0 \<or> b < unat k \<or> length (buffer out) = capacity out")
    case True
    from decode_loop_stop[OF fill dec True] obtain r0 where
      r0: "aws_huffman_decode_loop d cur out b = (r0, d1, c1, out)"
      and unk: "(k = 0 \<and> 32 \<le> b) = (r0 = Inl AWS_ERROR_COMPRESSION_UNKNOWN_SYMBOL)"
      and ok: "(k = 0 \<and> b < 32 \<or> k \<noteq> 0 \<and> b < unat k) = (r0 = Inr ())"
      by blast
    from r0 less.prems(5) have eqs: "r = r0" "d' = d1" "cur' = c1" "out' = out" by simp_all
    have rv: "r0 = (if k = 0 then (if b < 32 then Inr () else Inl AWS_ERROR_COMPRESSION_UNKNOWN_SYMBOL)
                    else if b < unat k then Inr () else Inl AWS_ERROR_SHORT_BUFFER)"
    proof (cases r0)
      case (Inl e)
      then show ?thesis using unk ok by (cases e) auto
    next
      case (Inr u)
      then show ?thesis using unk ok by auto
    qed
    have abs: "decode_bits ?c ?P out = (r0, ?P, out)"
      using True rv by (auto simp: decode_bits.simps[of ?c ?P out] decP lenP)
    have emp: "r0 = Inr () \<longrightarrow> c1 = []"
    proof
      assume "r0 = Inr ()"
      with ok k32 have "b < 32" by auto
      with len1 fl show "c1 = []" by auto
    qed
    from abs emp inv1 cd1 b1 eqs show ?thesis by simp
  next
    case False
    then have nz: "k \<noteq> 0" and kb: "unat k \<le> b" and ne: "length (buffer out) \<noteq> capacity out"
      by simp_all
    from ne less.prems(3) have room: "length (buffer out) < capacity out" by simp
    have kn: "unat k \<le> unat (num_bits_d d1)"
    proof (cases "c1 = []")
      case True
      with len1 kb show ?thesis by simp
    next
      case False
      with fl k32 show ?thesis by simp
    qed
    let ?d2 = "d1\<lparr>working_bits := push_bit (unat k) (working_bits d1),
                    num_bits_d := num_bits_d d1 - k\<rparr>"
    let ?o = "out\<lparr>buffer := buffer out @ [s]\<rparr>"
    from consume_spec(1)[OF inv1 kn] have inv2: "dec_inv ?d2" by simp
    from consume_spec(2)[OF inv1 kn, of c1] have b2: "dec_bits ?d2 c1 = drop (unat k) ?P"
      by (simp add: b1)
    have cd2: "coder_d ?d2 = ?c" using cd1 by simp
    have len2: "length (dec_bits ?d2 c1) = b - unat k" using b2 lenP by simp
    have abs: "decode_bits ?c ?P out = decode_bits ?c (drop (unat k) ?P) ?o"
      using nz kb room
      by (simp add: decode_bits.simps[of ?c ?P out] decP lenP aws_byte_buf_write_u8_def)
    note step = decode_loop_emit[OF fill dec nz kb room]
    show ?thesis
    proof (cases "b - unat k = 0")
      case True
      with step less.prems(5) have eqs: "r = Inr ()" "d' = ?d2" "cur' = c1" "out' = ?o"
        by simp_all
      from len2 True have nil: "dec_bits ?d2 c1 = []" by simp
      from length_dec_bits[OF inv2, of c1] len2 True have c1: "c1 = []" by simp
      from abs b2 nil have "decode_bits ?c ?P out = (Inr (), [], ?o)"
        by (simp add: decode_bits_nil)
      with eqs nil c1 inv2 cd2 show ?thesis by simp
    next
      case False
      with step less.prems(5) have run: "aws_huffman_decode_loop ?d2 c1 ?o (b - unat k) = (r, d', cur', out')"
        by simp
      have "0 < unat k" using nz by (simp add: unat_gt_0)
      with kb have lt: "b - unat k < b" by linarith
      have le2: "\<forall>w. unat (fst (decode (coder_d ?d2) w)) \<le> 32" using less.prems(1) cd1 by simp
      have wf2: "length (buffer ?o) \<le> capacity ?o" using room by simp
      from less.IH[OF lt le2 inv2 wf2 len2[symmetric] run]
      show ?thesis using abs b2 cd2 by simp
    qed
  qed
qed

lemma window_of_append:
  assumes "n \<le> length P" "n \<le> 32"
  shows "take n (word_bits 32 (window_of (P @ X))) = take n (word_bits 32 (window_of P))"
proof -
  have t: "take n (take 32 Q) = take n Q" for Q :: "bool list"
    by (simp only: take_take min_absorb1[OF assms(2)])
  have "take n (word_bits 32 (window_of (P @ X))) = take n ((P @ X) @ replicate 32 False)"
    by (simp only: word_bits_window_of t)
  also have "\<dots> = take n P" using assms(1) by simp
  also have "\<dots> = take n (P @ replicate 32 False)" using assms(1) by simp
  also have "\<dots> = take n (word_bits 32 (window_of P))"
    by (simp only: word_bits_window_of t)
  finally show ?thesis .
qed

lemma window_of_append_full: "32 \<le> length P \<Longrightarrow> window_of (P @ X) = window_of P"
  by (simp add: window_of_def)

lemma decode_determined_le32: "decode_determined c \<Longrightarrow> unat (fst (decode c w)) \<le> 32"
  unfolding decode_determined_def by blast

lemma decode_bits_extend:
  assumes det: "decode_determined c"
      and run: "decode_bits c P out = (r, P', out')"
  shows "decode_bits c (P @ X) out =
           (case r of Inr u \<Rightarrow> decode_bits c (P' @ X) out' | Inl e \<Rightarrow> (Inl e, P' @ X, out'))"
  using run
proof (induction "length P" arbitrary: P out rule: less_induct)
  case less
  obtain k s where dec: "decode c (window_of P) = (k, s)" by (cases "decode c (window_of P)")
  from decode_determined_le32[OF det, of "window_of P"] dec have k32: "unat k \<le> 32" by simp
  show ?case
  proof (cases "k = 0")
    case True
    show ?thesis
    proof (cases "length P < 32")
      case lt: True
      from less.prems True lt have "r = Inr ()" "P' = P" "out' = out"
        by (simp_all add: decode_bits.simps[of c P out] dec)
      then show ?thesis by simp
    next
      case ge: False
      from less.prems True ge have eqs: "r = Inl AWS_ERROR_COMPRESSION_UNKNOWN_SYMBOL" "P' = P" "out' = out"
        by (simp_all add: decode_bits.simps[of c P out] dec)
      from ge have "window_of (P @ X) = window_of P" by (simp add: window_of_append_full)
      with dec True ge have "decode_bits c (P @ X) out = (Inl AWS_ERROR_COMPRESSION_UNKNOWN_SYMBOL, P @ X, out)"
        by (simp add: decode_bits.simps[of c "P @ X" out])
      with eqs show ?thesis by simp
    qed
  next
    case nz: False
    show ?thesis
    proof (cases "length P < unat k")
      case True
      from less.prems nz True have "r = Inr ()" "P' = P" "out' = out"
        by (simp_all add: decode_bits.simps[of c P out] dec)
      then show ?thesis by simp
    next
      case False
      then have kP: "unat k \<le> length P" by simp
      have "fst (decode c (window_of P)) \<noteq> 0 \<and>
            take (unat (fst (decode c (window_of P)))) (word_bits 32 (window_of (P @ X))) =
              take (unat (fst (decode c (window_of P)))) (word_bits 32 (window_of P))"
        using nz dec window_of_append[OF kP k32, of X] by simp
      with det have "decode c (window_of (P @ X)) = decode c (window_of P)"
        unfolding decode_determined_def by blast
      with dec have decX: "decode c (window_of (P @ X)) = (k, s)" by simp
      show ?thesis
      proof (cases "length (buffer out) = capacity out")
        case True
        from less.prems nz kP True have eqs: "r = Inl AWS_ERROR_SHORT_BUFFER" "P' = P" "out' = out"
          by (simp_all add: decode_bits.simps[of c P out] dec)
        from decX nz kP True have "decode_bits c (P @ X) out = (Inl AWS_ERROR_SHORT_BUFFER, P @ X, out)"
          by (simp add: decode_bits.simps[of c "P @ X" out])
        with eqs show ?thesis by simp
      next
        case room: False
        let ?o = "snd (aws_byte_buf_write_u8 out s)"
        from less.prems nz kP room have run': "decode_bits c (drop (unat k) P) ?o = (r, P', out')"
          by (simp add: decode_bits.simps[of c P out] dec)
        have "0 < unat k" using nz by (simp add: unat_gt_0)
        with kP have lt: "length (drop (unat k) P) < length P" by simp
        from decX nz kP room have "decode_bits c (P @ X) out = decode_bits c (drop (unat k) P @ X) ?o"
          by (simp add: decode_bits.simps[of c "P @ X" out])
        with less.hyps[OF lt run'] show ?thesis by simp
      qed
    qed
  qed
qed

lemma decode_bits_quiescent:
  assumes "decode_bits c P out = (Inr (), P', out')"
  shows "decode_bits c P' out' = (Inr (), P', out')"
  using assms
proof (induction "length P" arbitrary: P out rule: less_induct)
  case less
  obtain k s where dec: "decode c (window_of P) = (k, s)" by (cases "decode c (window_of P)")
  show ?case
  proof (cases "k = 0 \<or> length P < unat k \<or> length (buffer out) = capacity out")
    case True
    with less.prems have "P' = P \<and> out' = out"
      by (auto simp: decode_bits.simps[of c P out] dec split: if_splits)
    with less.prems show ?thesis by simp
  next
    case False
    then have nz: "k \<noteq> 0" and kP: "unat k \<le> length P" and room: "length (buffer out) \<noteq> capacity out"
      by simp_all
    let ?o = "snd (aws_byte_buf_write_u8 out s)"
    from less.prems nz kP room have run': "decode_bits c (drop (unat k) P) ?o = (Inr (), P', out')"
      by (simp add: decode_bits.simps[of c P out] dec)
    have "0 < unat k" using nz by (simp add: unat_gt_0)
    with kP have lt: "length (drop (unat k) P) < length P" by simp
    from less.hyps[OF lt run'] show ?thesis .
  qed
qed

lemma decode_bits_full:
  assumes "length (buffer out) = capacity out"
  shows "snd (snd (decode_bits c P out)) = out"
proof -
  obtain k s where dec: "decode c (window_of P) = (k, s)" by (cases "decode c (window_of P)")
  show ?thesis using assms by (simp add: decode_bits.simps[of c P out] dec)
qed

lemma dec_bits_append: "dec_bits d (xs @ ys) = dec_bits d xs @ stream_bits ys"
  by (simp add: dec_bits_def)

lemma decode_call_refines:
  assumes le32: "\<forall>w. unat (fst (decode (coder_d d) w)) \<le> 32"
      and inv: "dec_inv d"
      and wf: "length (buffer out) \<le> capacity out"
      and room: "length (buffer out) \<noteq> capacity out"
      and run: "aws_huffman_decode d cur out = (r, d', cur', out')"
  shows "decode_bits (coder_d d) (dec_bits d cur) out = (r, dec_bits d' cur', out') \<and>
         dec_inv d' \<and> coder_d d' = coder_d d \<and> (r = Inr () \<longrightarrow> cur' = []) \<and>
         length (buffer out') \<le> capacity out'"
proof -
  let ?b = "unat (num_bits_d d) + length cur * 8"
  from run room have loop: "aws_huffman_decode_loop d cur out ?b = (r, d', cur', out')"
    by (simp add: aws_huffman_decode_def Let_def)
  have b: "?b = length (dec_bits d cur)" using length_dec_bits[OF inv, of cur] by (simp add: mult.commute)
  from decode_loop_output[OF wf loop] have "length (buffer out') \<le> capacity out'" by auto
  with decode_loop_refines[OF le32 inv wf b loop] show ?thesis by simp
qed

lemma decode_chunks_spec:
  assumes det: "decode_determined c"
  shows "dec_inv d \<Longrightarrow> coder_d d = c \<Longrightarrow> length (buffer out) \<le> capacity out \<Longrightarrow>
         decode_bits c (dec_bits d []) out = (Inr (), dec_bits d [], out) \<Longrightarrow>
         decode_chunks d chunks out = (r2, d2, out2) \<Longrightarrow>
         decode_bits c (dec_bits d (concat chunks)) out = (r, P, out1) \<Longrightarrow>
         out2 = out1 \<and> (length (buffer out1) < capacity out1 \<longrightarrow> r2 = r)"
proof (induction chunks arbitrary: d out)
  case Nil
  from Nil.prems(5) have "r2 = Inr ()" "out2 = out" by simp_all
  moreover from Nil.prems(4,6) have "r = Inr ()" "out1 = out" by simp_all
  ultimately show ?case by simp
next
  case (Cons ch chs)
  let ?X = "stream_bits (concat chs)"
  from decode_determined_le32[OF det] Cons.prems(2)
  have le32: "\<forall>w. unat (fst (decode (coder_d d) w)) \<le> 32" by simp
  have whole: "decode_bits c (dec_bits d ch @ ?X) out = (r, P, out1)"
    using Cons.prems(6) by (simp add: dec_bits_append)
  show ?case
  proof (cases "length (buffer out) = capacity out")
    case True
    then have "aws_huffman_decode d ch out = (Inl AWS_ERROR_SHORT_BUFFER, d, ch, out)"
      by (simp add: aws_huffman_decode_def)
    with Cons.prems(5) have "out2 = out" by simp
    moreover from decode_bits_full[OF True, of c "dec_bits d ch @ ?X"] whole have "out1 = out" by simp
    ultimately show ?thesis using True by simp
  next
    case False
    obtain r1 d1 c1 o1 where call: "aws_huffman_decode d ch out = (r1, d1, c1, o1)"
      by (cases "aws_huffman_decode d ch out")
    from decode_call_refines[OF le32 Cons.prems(1) Cons.prems(3) False call] Cons.prems(2)
    have abs: "decode_bits c (dec_bits d ch) out = (r1, dec_bits d1 c1, o1)"
      and inv1: "dec_inv d1" and cd1: "coder_d d1 = c" and emp: "r1 = Inr () \<longrightarrow> c1 = []"
      and wf1: "length (buffer o1) \<le> capacity o1"
      by simp_all
    note ext = decode_bits_extend[OF det abs, of ?X]
    show ?thesis
    proof (cases r1)
      case (Inl e)
      with call Cons.prems(5) have "r2 = Inl e" "out2 = o1" by simp_all
      moreover from ext Inl whole have "r = Inl e" "out1 = o1" by simp_all
      ultimately show ?thesis by simp
    next
      case (Inr u)
      with emp have c1: "c1 = []" by simp
      from Inr call Cons.prems(5) have rest: "decode_chunks d1 chs o1 = (r2, d2, out2)" by simp
      from abs Inr c1 have "decode_bits c (dec_bits d ch) out = (Inr (), dec_bits d1 [], o1)" by simp
      from decode_bits_quiescent[OF this]
      have q1: "decode_bits c (dec_bits d1 []) o1 = (Inr (), dec_bits d1 [], o1)" .
      from ext Inr c1 whole have "decode_bits c (dec_bits d1 [] @ ?X) o1 = (r, P, out1)" by simp
      then have w1: "decode_bits c (dec_bits d1 (concat chs)) o1 = (r, P, out1)"
        using dec_bits_append[of d1 "[]" "concat chs"] by simp
      from Cons.IH[OF inv1 cd1 wf1 q1 rest w1] show ?thesis .
    qed
  qed
qed

lemma decode_chunks_one_call:
  assumes det: "decode_determined c"
      and wf: "length (buffer out) \<le> capacity out"
      and one: "aws_huffman_decode (aws_huffman_decoder_init c) (concat chunks) out = (r, d', rest, out1)"
      and many: "decode_chunks (aws_huffman_decoder_init c) chunks out = (r2, d2, out2)"
  shows "out2 = out1 \<and> (length (buffer out1) < capacity out1 \<longrightarrow> r2 = r)"
proof (cases "length (buffer out) = capacity out")
  case True
  with one have o1: "out1 = out" by (simp add: aws_huffman_decode_def)
  have "out2 = out"
  proof (cases chunks)
    case Nil
    with many show ?thesis by simp
  next
    case (Cons ch chs)
    with many True show ?thesis by (simp add: aws_huffman_decode_def)
  qed
  with o1 True show ?thesis by simp
next
  case False
  let ?d = "aws_huffman_decoder_init c"
  from decode_determined_le32[OF det]
  have le32: "\<forall>w. unat (fst (decode (coder_d ?d) w)) \<le> 32" by simp
  from decode_call_refines[OF le32 _ wf False one]
  have abs: "decode_bits c (dec_bits ?d (concat chunks)) out = (r, dec_bits d' rest, out1)" by simp
  have q: "decode_bits c (dec_bits ?d []) out = (Inr (), dec_bits ?d [], out)"
    by (simp add: decode_bits_nil)
  from decode_chunks_spec[OF det _ _ wf q many abs] show ?thesis by simp
qed

lemma take_word_bits_eq_bit:
  fixes w w' :: "32 word"
  assumes "take n (word_bits 32 w') = take n (word_bits 32 w)" "i < n" "n \<le> 32"
  shows "bit w' (31 - i) = bit w (31 - i)"
proof -
  from assms(1) have "take n (word_bits 32 w') ! i = take n (word_bits 32 w) ! i" by simp
  with assms(2,3) show ?thesis by simp
qed

lemma abc_determined: "decode_determined abc_coder"
proof -
  have a: "unat (fst (abc_decode w)) \<le> 32" for w by (simp add: abc_decode_def)
  have b: "abc_decode w' = abc_decode w"
    if nz: "fst (abc_decode w) \<noteq> 0"
      and eq: "take (unat (fst (abc_decode w))) (word_bits 32 w') =
               take (unat (fst (abc_decode w))) (word_bits 32 w)" for w w'
  proof (cases "bit w 31")
    case False
    then have f: "abc_decode w = (1, 0x41)" by (simp add: abc_decode_def)
    from take_word_bits_eq_bit[OF eq, of 0] f have "bit w' 31 = bit w 31" by simp
    with False show ?thesis by (simp add: abc_decode_def)
  next
    case b31: True
    show ?thesis
    proof (cases "bit w 30")
      case False
      with b31 have f: "abc_decode w = (2, 0x42)" by (simp add: abc_decode_def)
      from take_word_bits_eq_bit[OF eq, of 0] take_word_bits_eq_bit[OF eq, of 1] f
      have "bit w' 31 = bit w 31" "bit w' 30 = bit w 30" by simp_all
      with False b31 show ?thesis by (simp add: abc_decode_def)
    next
      case b30: True
      show ?thesis
      proof (cases "bit w 29")
        case False
        with b31 b30 have f: "abc_decode w = (3, 0x43)" by (simp add: abc_decode_def)
        from take_word_bits_eq_bit[OF eq, of 0] take_word_bits_eq_bit[OF eq, of 1]
          take_word_bits_eq_bit[OF eq, of 2] f
        have "bit w' 31 = bit w 31" "bit w' 30 = bit w 30" "bit w' 29 = bit w 29" by simp_all
        with False b31 b30 show ?thesis by (simp add: abc_decode_def)
      next
        case True
        with b31 b30 nz show ?thesis by (simp add: abc_decode_def)
      qed
    qed
  qed
  show ?thesis unfolding decode_determined_def using a b by simp
qed

lemma lookahead_coder_simps [simp]:
  "encode lookahead_coder = lookahead_encode" "decode lookahead_coder = lookahead_decode"
  by (simp_all add: lookahead_coder_def)

lemma fresh_encode_bits_ok:
  assumes ok: "codes_ok c seq"
      and enc: "aws_huffman_encode ((aws_huffman_encoder_init c)\<lparr>eos_padding := eos\<rparr>) seq
                  \<lparr>buffer = [], capacity = cap\<rparr> = (Inr (), enc', rest, out)"
  shows "stream_bits (buffer out) =
           seq_bits c seq @ word_bits (eos_pad_len (length (seq_bits c seq))) eos"
proof -
  let ?E = "(aws_huffman_encoder_init c)\<lparr>eos_padding := eos\<rparr>"
  have cd: "coder ?E = c" and ov: "overflow_bits ?E = \<lparr>pattern = 0, num_bits = 0\<rparr>"
    and ep: "eos_padding ?E = eos"
    by (simp_all add: aws_huffman_encoder_init_def)
  have ok': "codes_ok (coder ?E) seq" using ok by (simp add: cd)
  have o32: "unat (num_bits (overflow_bits ?E)) \<le> 32" by (simp add: ov)
  have p: "pending_bits ?E seq = seq_bits c seq" by (simp add: pending_bits_def ov cd code_bits_def)
  from encode_call_spec[OF ok' o32, of "\<lparr>buffer = [], capacity = cap\<rparr>"] enc
  have "call_post ?E seq \<lparr>buffer = [], capacity = cap\<rparr> (Inr (), enc', rest, out)" by simp
  then show ?thesis by (auto simp: call_post_def p ep)
qed

lemma fresh_encode_resume:
  assumes ok: "codes_ok c seq"
  shows "encode_resume ((aws_huffman_encoder_init c)\<lparr>eos_padding := eos\<rparr>) seq caps = Some bytes \<Longrightarrow>
           stream_bits bytes =
             seq_bits c seq @ word_bits (eos_pad_len (length (seq_bits c seq))) eos"
    and "\<forall>n \<in> set caps. 0 < n \<Longrightarrow> length (seq_bits c seq) div 8 < length caps \<Longrightarrow>
           \<exists>bytes. encode_resume ((aws_huffman_encoder_init c)\<lparr>eos_padding := eos\<rparr>) seq caps = Some bytes"
proof -
  let ?E = "(aws_huffman_encoder_init c)\<lparr>eos_padding := eos\<rparr>"
  have cd: "coder ?E = c" and ov: "overflow_bits ?E = \<lparr>pattern = 0, num_bits = 0\<rparr>"
    and ep: "eos_padding ?E = eos"
    by (simp_all add: aws_huffman_encoder_init_def)
  have ok': "codes_ok (coder ?E) seq" using ok by (simp add: cd)
  have o32: "unat (num_bits (overflow_bits ?E)) \<le> 32" by (simp add: ov)
  have p: "pending_bits ?E seq = seq_bits c seq" by (simp add: pending_bits_def ov cd code_bits_def)
  show "encode_resume ?E seq caps = Some bytes \<Longrightarrow>
           stream_bits bytes =
             seq_bits c seq @ word_bits (eos_pad_len (length (seq_bits c seq))) eos"
    using encode_resume_spec[OF ok' o32, of caps bytes] by (simp add: p ep)
  show "\<forall>n \<in> set caps. 0 < n \<Longrightarrow> length (seq_bits c seq) div 8 < length caps \<Longrightarrow>
           \<exists>bytes. encode_resume ?E seq caps = Some bytes"
    using encode_resume_completes[OF ok' o32, of caps] by (simp add: p)
qed

lemma abc_encode_BBBBA_F0:
  "aws_huffman_encode ((aws_huffman_encoder_init abc_coder)\<lparr>eos_padding := 0xF0\<rparr>)
       [0x42, 0x42, 0x42, 0x42, 0x41] \<lparr>buffer = [], capacity = 4\<rparr> =
     (Inr (), (aws_huffman_encoder_init abc_coder)\<lparr>eos_padding := 0xF0\<rparr>, [],
      \<lparr>buffer = [0xAA, 0x70], capacity = 4\<rparr>)"
  by (simp add: encode_eval_simps)

lemma abc_decode_55_7F:
  "aws_huffman_decode (aws_huffman_decoder_init abc_coder) [0x55, 0x7F]
       \<lparr>buffer = [], capacity = 8\<rparr> =
     (Inr (), \<lparr>coder_d = abc_coder, working_bits = 0xFE00000000000000, num_bits_d = 7\<rparr>, [],
      \<lparr>buffer = [0x41, 0x42, 0x42, 0x42, 0x42], capacity = 8\<rparr>)"
  by (simp add: decode_eval_simps)

lemma example_coder_simps [simp]:
  "encode example_coder = example_encode" "decode example_coder = example_decode"
  by (simp_all add: example_coder_def)






section \<open>Claims\<close>

subsection \<open>Decoder: a window that matches no code\<close>

text \<open>
  Claim C6.  Let an iteration of the decode loop present the window of the filled
  accumulator and let the coder's \<^verbatim>\<open>decode\<close> return \<^verbatim>\<open>bits_read == 0\<close> on it.  If
  \<^verbatim>\<open>bits_left\<close> is below 32 the call returns success, otherwise it fails with
  unknown-symbol; either way the decoder and the cursor are returned as the fill left
  them and nothing is written.  The statement is about \<open>aws_huffman_decode_loop\<close> at an
  arbitrary state and budget, hence about every iteration of every call; its second part
  is the first iteration of \<open>aws_huffman_decode\<close>, where the budget is the buffered bits
  plus 8 times the unread cursor bytes; its third part says that with this budget below
  32 the cursor has been read completely into the accumulator, so nothing is lost for
  the next call.
\<close>

theorem decode_no_match:
  assumes "decode_fill_working_bits decoder to_decode = (decoder1, to_decode1)"
      and "fst (decode (coder_d decoder1) (ucast (drop_bit 32 (working_bits decoder1)))) = 0"
    shows "aws_huffman_decode_loop decoder to_decode out bits_left =
             (if bits_left < 32 then (Inr (), decoder1, to_decode1, out)
              else (Inl AWS_ERROR_COMPRESSION_UNKNOWN_SYMBOL, decoder1, to_decode1, out)) \<and>
           (length (buffer out) \<noteq> capacity out \<longrightarrow>
              aws_huffman_decode decoder to_decode out =
                (if unat (num_bits_d decoder) + length to_decode * 8 < 32
                 then (Inr (), decoder1, to_decode1, out)
                 else (Inl AWS_ERROR_COMPRESSION_UNKNOWN_SYMBOL, decoder1, to_decode1, out))) \<and>
           (unat (num_bits_d decoder) \<le> 39 \<and>
            bits_left = unat (num_bits_d decoder) + 8 * length to_decode \<and> bits_left < 32 \<longrightarrow>
              to_decode1 = [] \<and> unat (num_bits_d decoder1) = bits_left)"
proof -
  obtain s where dec: "decode (coder_d decoder1) (ucast (drop_bit 32 (working_bits decoder1))) = (0, s)"
    using assms(2) by (metis prod.collapse)
  have loop: "aws_huffman_decode_loop decoder to_decode out b =
             (if b < 32 then (Inr (), decoder1, to_decode1, out)
              else (Inl AWS_ERROR_COMPRESSION_UNKNOWN_SYMBOL, decoder1, to_decode1, out))" for b
    using assms(1) dec
    by (simp add: aws_huffman_decode_loop.simps[of decoder to_decode out b] Let_def)
  have call: "length (buffer out) \<noteq> capacity out \<longrightarrow>
              aws_huffman_decode decoder to_decode out =
                (if unat (num_bits_d decoder) + length to_decode * 8 < 32
                 then (Inr (), decoder1, to_decode1, out)
                 else (Inl AWS_ERROR_COMPRESSION_UNKNOWN_SYMBOL, decoder1, to_decode1, out))"
    by (simp add: aws_huffman_decode_def Let_def loop)
  have kept: "unat (num_bits_d decoder) \<le> 39 \<and>
            bits_left = unat (num_bits_d decoder) + 8 * length to_decode \<and> bits_left < 32 \<longrightarrow>
              to_decode1 = [] \<and> unat (num_bits_d decoder1) = bits_left"
    using fill_num[OF _ assms(1)] by auto
  from loop call kept show ?thesis by blast
qed

text \<open>
  Witness for C6 with the coder \<open>abc_coder\<close>: the byte \<^verbatim>\<open>0xFF\<close> matches no code.  With
  8 bits remaining the call succeeds and keeps the byte in the accumulator; the same
  window with a budget of 32 fails with unknown-symbol.
\<close>

theorem decode_no_match_witness:
  "decode_fill_working_bits (aws_huffman_decoder_init abc_coder) [0xFF] =
     (\<lparr>coder_d = abc_coder, working_bits = 0xFF00000000000000, num_bits_d = 8\<rparr>, []) \<and>
   fst (decode abc_coder 0xFF000000) = 0 \<and>
   aws_huffman_decode (aws_huffman_decoder_init abc_coder) [0xFF] \<lparr>buffer = [], capacity = 4\<rparr> =
     (Inr (), \<lparr>coder_d = abc_coder, working_bits = 0xFF00000000000000, num_bits_d = 8\<rparr>, [],
      \<lparr>buffer = [], capacity = 4\<rparr>) \<and>
   aws_huffman_decode_loop (aws_huffman_decoder_init abc_coder) [0xFF] \<lparr>buffer = [], capacity = 4\<rparr> 32 =
     (Inl AWS_ERROR_COMPRESSION_UNKNOWN_SYMBOL,
      \<lparr>coder_d = abc_coder, working_bits = 0xFF00000000000000, num_bits_d = 8\<rparr>, [],
      \<lparr>buffer = [], capacity = 4\<rparr>)"
proof -
  have h2: "fst (decode (coder_d \<lparr>coder_d = abc_coder, working_bits = 0xFF00000000000000, num_bits_d = 8\<rparr>)
                 (ucast (drop_bit 32 (working_bits
                    \<lparr>coder_d = abc_coder, working_bits = 0xFF00000000000000, num_bits_d = 8\<rparr>)))) = 0"
    by (simp add: abc_coder_def abc_decode_FF)
  from decode_no_match[OF abc_fill_FF h2, of "\<lparr>buffer = [], capacity = 4\<rparr>" 8]
       decode_no_match[OF abc_fill_FF h2, of "\<lparr>buffer = [], capacity = 4\<rparr>" 32]
  show ?thesis
    by (simp add: abc_fill_FF abc_coder_def abc_decode_FF aws_huffman_decoder_init_def)
qed

subsection \<open>Decoder: output buffer at capacity\<close>

text \<open>
  Claim C8.  When an iteration has decoded a genuine symbol (\<^verbatim>\<open>bits_read\<close> is not zero
  and does not exceed \<^verbatim>\<open>bits_left\<close>) and the output buffer is at capacity, the loop
  fails with short-buffer, writes nothing and returns the decoder exactly as the fill
  left it: the accumulator is not shifted and \<^verbatim>\<open>num_bits\<close> is not lowered, so the code
  is not consumed.  The call is resumable: continuing from the returned decoder and
  cursor, with whatever output buffer, is the same computation as the interrupted
  iteration run with that buffer, and a new call of \<open>aws_huffman_decode\<close> on the returned
  state recomputes the same budget.
\<close>

theorem decode_short_buffer:
  assumes "decode_fill_working_bits decoder to_decode = (decoder1, to_decode1)"
      and "decode (coder_d decoder1) (ucast (drop_bit 32 (working_bits decoder1))) = (bits_read, symbol)"
      and "bits_read \<noteq> 0" and "unat bits_read \<le> bits_left"
      and "length (buffer out) = capacity out"
    shows "aws_huffman_decode_loop decoder to_decode out bits_left =
             (Inl AWS_ERROR_SHORT_BUFFER, decoder1, to_decode1, out) \<and>
           (\<forall>out2. aws_huffman_decode_loop decoder1 to_decode1 out2 bits_left =
                   aws_huffman_decode_loop decoder to_decode out2 bits_left) \<and>
           (\<forall>out2. unat (num_bits_d decoder) \<le> 39 \<and>
                   bits_left = unat (num_bits_d decoder) + 8 * length to_decode \<and>
                   length (buffer out2) \<noteq> capacity out2 \<longrightarrow>
                   aws_huffman_decode decoder1 to_decode1 out2 =
                   aws_huffman_decode_loop decoder to_decode out2 bits_left)"
proof -
  have short: "aws_huffman_decode_loop decoder to_decode out bits_left =
             (Inl AWS_ERROR_SHORT_BUFFER, decoder1, to_decode1, out)"
    using assms
    by (simp add: aws_huffman_decode_loop.simps[of decoder to_decode out bits_left] Let_def)
  have resume: "aws_huffman_decode_loop decoder1 to_decode1 out2 b =
                aws_huffman_decode_loop decoder to_decode out2 b" for out2 b
    using assms(1) fill_idem[OF assms(1)]
    by (simp add: aws_huffman_decode_loop.simps[of decoder to_decode out2 b]
                  aws_huffman_decode_loop.simps[of decoder1 to_decode1 out2 b])
  have call: "aws_huffman_decode decoder1 to_decode1 out2 =
              aws_huffman_decode_loop decoder to_decode out2 bits_left"
    if "unat (num_bits_d decoder) \<le> 39"
       "bits_left = unat (num_bits_d decoder) + 8 * length to_decode"
       "length (buffer out2) \<noteq> capacity out2" for out2
  proof -
    from fill_num[OF that(1) assms(1)] that(2)
    have "unat (num_bits_d decoder1) + length to_decode1 * 8 = bits_left" by simp
    then show ?thesis using that(3) by (simp add: aws_huffman_decode_def Let_def resume)
  qed
  from short resume call show ?thesis by blast
qed

text \<open>
  Witness for C8: eight buffered zero bits decode as the symbol \<^verbatim>\<open>0x41\<close> of \<open>abc_coder\<close>,
  but the one-byte output buffer is already full.
\<close>

theorem decode_short_buffer_witness:
  "decode_fill_working_bits (aws_huffman_decoder_init abc_coder) [0] =
     (\<lparr>coder_d = abc_coder, working_bits = 0, num_bits_d = 8\<rparr>, []) \<and>
   decode abc_coder 0 = (1, 0x41) \<and>
   aws_huffman_decode_loop (aws_huffman_decoder_init abc_coder) [0]
       \<lparr>buffer = [0x41], capacity = 1\<rparr> 8 =
     (Inl AWS_ERROR_SHORT_BUFFER, \<lparr>coder_d = abc_coder, working_bits = 0, num_bits_d = 8\<rparr>, [],
      \<lparr>buffer = [0x41], capacity = 1\<rparr>)"
proof -
  have h1: "decode_fill_working_bits (aws_huffman_decoder_init abc_coder) [0] =
     (\<lparr>coder_d = abc_coder, working_bits = 0, num_bits_d = 8\<rparr>, [])"
    by (simp add: aws_huffman_decoder_init_def)
  have h2: "decode (coder_d \<lparr>coder_d = abc_coder, working_bits = 0, num_bits_d = 8\<rparr>)
              (ucast (drop_bit 32 (working_bits \<lparr>coder_d = abc_coder, working_bits = 0, num_bits_d = 8\<rparr>)))
            = (1, 0x41)"
    by (simp add: abc_coder_def abc_decode_def)
  have h3: "(1 :: 8 word) \<noteq> 0" by simp
  have h4: "unat (1 :: 8 word) \<le> 8" by simp
  have h5: "length (buffer \<lparr>buffer = [0x41 :: 8 word], capacity = 1\<rparr>) =
            capacity \<lparr>buffer = [0x41 :: 8 word], capacity = 1\<rparr>" by simp
  from decode_short_buffer[OF h1 h2 h3 h4 h5] h1
  show ?thesis by (simp add: abc_coder_def abc_decode_def)
qed

subsection \<open>Decoder: bound on the number of buffered bits\<close>

text \<open>
  Claim C10.  For a coder whose \<^verbatim>\<open>decode\<close> never reports more than 32 bits read, every
  decoder state reachable from \<open>aws_huffman_decoder_init\<close> by calls of
  \<open>aws_huffman_decode\<close> (with any cursor and output buffer) and of
  \<open>aws_huffman_decoder_reset\<close> has \<^verbatim>\<open>num_bits\<close> at most 39.  The claim's second condition
  on the coder (a code is reported only when that many valid bits are presented) is not
  needed: the loop itself consumes a code only when \<^verbatim>\<open>bits_read\<close> does not exceed
  \<^verbatim>\<open>bits_left\<close>, which keeps the 8-bit subtraction from wrapping.
\<close>

theorem decoder_num_bits_bound:
  assumes "\<forall>w. unat (fst (decode c w)) \<le> 32"
      and "decoder_reachable c d"
    shows "unat (num_bits_d d) \<le> 39"
proof -
  from assms(2) have "unat (num_bits_d d) \<le> 39 \<and> coder_d d = c"
  proof (induction rule: decoder_reachable.induct)
    case init
    show ?case by (simp add: aws_huffman_decoder_init_def)
  next
    case (reset d)
    show ?case by (simp add: aws_huffman_decoder_reset_def aws_huffman_decoder_init_def reset.IH)
  next
    case (call d to_decode out r d' rest out')
    from call.IH assms(1) have "\<forall>w. unat (fst (decode (coder_d d) w)) \<le> 32" by simp
    from decode_call_num_bits[OF this _ call.hyps(2)] call.IH show ?case by simp
  qed
  then show ?thesis by simp
qed

text \<open>Witness for C10: the state after decoding the byte \<^verbatim>\<open>0xFF\<close> with \<open>abc_coder\<close>.\<close>

theorem decoder_num_bits_bound_witness:
  "decoder_reachable abc_coder \<lparr>coder_d = abc_coder, working_bits = 0xFF00000000000000, num_bits_d = 8\<rparr> \<and>
   unat (num_bits_d \<lparr>coder_d = abc_coder, working_bits = 0xFF00000000000000, num_bits_d = 8\<rparr>) \<le> 39"
proof -
  have h1: "\<forall>w. unat (fst (decode abc_coder w)) \<le> 32"
    by (simp add: abc_coder_def abc_decode_def)
  from decoder_reachable.call[OF decoder_reachable.init abc_decode_call_FF]
  have h2: "decoder_reachable abc_coder
              \<lparr>coder_d = abc_coder, working_bits = 0xFF00000000000000, num_bits_d = 8\<rparr>" .
  from decoder_num_bits_bound[OF h1 h2] h2 show ?thesis by simp
qed

subsection \<open>Encoder: length estimate\<close>

text \<open>
  Claim C9.  For a symbol sequence whose symbols all have codes (of 1 to 32 bits),
  \<open>aws_huffman_get_encoded_length\<close> returns the sum of the codes' bit counts divided by
  8 and rounded up, and a call of \<open>aws_huffman_encode\<close> on a fresh encoder (as
  \<open>aws_huffman_encoder_init\<close> leaves it, with any \<^verbatim>\<open>eos_padding\<close>) that returns success has
  appended exactly that many bytes to the output buffer.  The length function cannot
  change the encoder: it reads it and returns a number.
\<close>

theorem encoded_length_accuracy:
  assumes "\<forall>s \<in> set seq. num_bits (encode c s) \<noteq> 0 \<and> unat (num_bits (encode c s)) \<le> 32"
      and "enc = (aws_huffman_encoder_init c)\<lparr>eos_padding := eos\<rparr>"
      and "length (buffer out) \<le> capacity out"
      and "aws_huffman_encode enc seq out = (Inr (), enc', rest, out')"
    shows "aws_huffman_get_encoded_length enc seq =
             (sum_list (map (\<lambda>s. unat (num_bits (encode c s))) seq) + 7) div 8 \<and>
           length (buffer out') = length (buffer out) + aws_huffman_get_encoded_length enc seq"
proof -
  have cd: "coder enc = c" and ov: "overflow_bits enc = \<lparr>pattern = 0, num_bits = 0\<rparr>"
    by (simp_all add: assms(2) aws_huffman_encoder_init_def)
  have ok: "codes_ok (coder enc) seq" using assms(1) cd by (simp add: codes_ok_def)
  have o32: "unat (num_bits (overflow_bits enc)) \<le> 32" by (simp add: ov)
  from encode_call_spec[OF ok o32 assms(3)] assms(4)
  have "call_post enc seq out (Inr (), enc', rest, out')" by simp
  from call_success_length[OF this]
  have "length (buffer out') = length (buffer out) + (length (seq_bits c seq) + 7) div 8"
    by (simp add: pending_bits_def ov cd code_bits_def)
  then show ?thesis
    by (simp add: encoded_length_eq cd length_seq_bits)
qed

text \<open>
  Witness for C9: the symbols \<^verbatim>\<open>0x41 0x41 0x42\<close> have codes of 1, 1 and 2 bits; the
  estimate is one byte and the call appends one byte.
\<close>

theorem encoded_length_accuracy_witness:
  "aws_huffman_encode (aws_huffman_encoder_init abc_coder) [0x41, 0x41, 0x42]
       \<lparr>buffer = [], capacity = 4\<rparr> =
     (Inr (), aws_huffman_encoder_init abc_coder, [], \<lparr>buffer = [0x2F], capacity = 4\<rparr>) \<and>
   aws_huffman_get_encoded_length (aws_huffman_encoder_init abc_coder) [0x41, 0x41, 0x42] = 1 \<and>
   length (buffer \<lparr>buffer = [0x2F :: 8 word], capacity = 4\<rparr>) =
     length (buffer \<lparr>buffer = [] :: 8 word list, capacity = 4\<rparr>) +
     aws_huffman_get_encoded_length (aws_huffman_encoder_init abc_coder) [0x41, 0x41, 0x42]"
proof -
  have h1: "\<forall>s \<in> set [0x41, 0x41, 0x42 :: 8 word].
              num_bits (encode abc_coder s) \<noteq> 0 \<and> unat (num_bits (encode abc_coder s)) \<le> 32"
    by (simp add: abc_encode_def)
  have h2: "aws_huffman_encoder_init abc_coder =
              (aws_huffman_encoder_init abc_coder)\<lparr>eos_padding := 255\<rparr>"
    by (simp add: aws_huffman_encoder_init_def)
  have h3: "length (buffer \<lparr>buffer = [] :: 8 word list, capacity = 4\<rparr>) \<le>
              capacity \<lparr>buffer = [] :: 8 word list, capacity = 4\<rparr>" by simp
  have g: "(sum_list (map (\<lambda>s. unat (num_bits (encode abc_coder s))) [0x41, 0x41, 0x42]) + 7) div 8 = 1"
    by (simp add: abc_encode_def)
  note t = encoded_length_accuracy[OF h1 h2 h3 abc_encode_AAB]
  from t g have l: "aws_huffman_get_encoded_length (aws_huffman_encoder_init abc_coder) [0x41, 0x41, 0x42] = 1"
    by (simp only:)
  from l abc_encode_AAB show ?thesis by simp
qed

subsection \<open>Encoder: end-of-stream padding\<close>

text \<open>
  Claim C3, amended.  A call of \<open>aws_huffman_encode\<close> that returns success has appended
  whole bytes only, and their bits are the pending overflow bits, the codes of all
  symbols and then \<open>k\<close> padding bits, where \<open>k\<close> is the number of free positions of the
  last byte (\<open>eos_pad_len\<close>: 0 when the codes end on a byte boundary).  The padding is
  \<open>word_bits k eos_padding\<close>, the \<open>k\<close> low-order bits of \<^verbatim>\<open>eos_padding\<close> (bits \<open>k - 1\<close> down
  to 0): the helper writes the pattern right-justified, as it does for every code.  The
  claim as stated takes the padding from the most significant bit of \<^verbatim>\<open>eos_padding\<close>
  downward; the two agree for the default \<^verbatim>\<open>0xFF\<close> only.
\<close>

theorem eos_padding_low_order_bits:
  assumes "\<forall>s \<in> set seq. num_bits (encode (coder enc) s) \<noteq> 0 \<and>
                        unat (num_bits (encode (coder enc) s)) \<le> 32"
      and "unat (num_bits (overflow_bits enc)) \<le> 32"
      and "length (buffer out) \<le> capacity out"
      and "aws_huffman_encode enc seq out = (Inr (), enc', rest, out')"
    shows "\<exists>bytes. buffer out' = buffer out @ bytes \<and>
             stream_bits bytes =
               pending_bits enc seq @
               word_bits (eos_pad_len (length (pending_bits enc seq))) (eos_padding enc)"
proof -
  have ok: "codes_ok (coder enc) seq" using assms(1) by (simp add: codes_ok_def)
  from encode_call_spec[OF ok assms(2,3)] assms(4)
  show ?thesis by (simp add: call_post_def)
qed

text \<open>
  Witness for C3: with \<^verbatim>\<open>eos_padding = 0xF0\<close> the one-bit code of \<^verbatim>\<open>0x41\<close> is followed by
  the seven low-order bits \<^verbatim>\<open>1110000\<close> of the padding byte, giving \<^verbatim>\<open>0x70\<close>.
\<close>

theorem eos_padding_low_order_bits_witness:
  "aws_huffman_encode ((aws_huffman_encoder_init abc_coder)\<lparr>eos_padding := 0xF0\<rparr>) [0x41]
       \<lparr>buffer = [], capacity = 4\<rparr> =
     (Inr (), (aws_huffman_encoder_init abc_coder)\<lparr>eos_padding := 0xF0\<rparr>, [],
      \<lparr>buffer = [0x70], capacity = 4\<rparr>) \<and>
   stream_bits [0x70] =
     pending_bits ((aws_huffman_encoder_init abc_coder)\<lparr>eos_padding := 0xF0\<rparr>) [0x41] @
     word_bits 7 (0xF0 :: 8 word)"
proof -
  let ?E = "(aws_huffman_encoder_init abc_coder)\<lparr>eos_padding := 0xF0\<rparr>"
  have h1: "\<forall>s \<in> set [0x41 :: 8 word].
              num_bits (encode (coder ?E) s) \<noteq> 0 \<and> unat (num_bits (encode (coder ?E) s)) \<le> 32"
    by (simp add: aws_huffman_encoder_init_def abc_encode_def)
  have h2: "unat (num_bits (overflow_bits ?E)) \<le> 32"
    by (simp add: aws_huffman_encoder_init_def)
  have h3: "length (buffer \<lparr>buffer = [] :: 8 word list, capacity = 4\<rparr>) \<le>
              capacity \<lparr>buffer = [] :: 8 word list, capacity = 4\<rparr>" by simp
  have k: "eos_pad_len (length (pending_bits ?E [0x41])) = 7"
    by (simp add: pending_bits_def aws_huffman_encoder_init_def abc_encode_def eos_pad_len_def)
  from eos_padding_low_order_bits[OF h1 h2 h3 abc_encode_A_eos_F0]
  have "stream_bits [0x70] = pending_bits ?E [0x41] @
          word_bits (eos_pad_len (length (pending_bits ?E [0x41]))) (eos_padding ?E)"
    by simp
  with k abc_encode_A_eos_F0 show ?thesis by simp
qed

text \<open>
  Counterexample to C3 as stated: in the same call the padded byte is \<^verbatim>\<open>0x70\<close>, while
  padding with the high-order bits of \<^verbatim>\<open>0xF0\<close> (\<open>eos_high_order_bits\<close>, the claim's rule)
  would give the bits of \<^verbatim>\<open>0x78\<close>.
\<close>

theorem eos_padding_high_order_counterexample:
  "aws_huffman_encode ((aws_huffman_encoder_init abc_coder)\<lparr>eos_padding := 0xF0\<rparr>) [0x41]
       \<lparr>buffer = [], capacity = 4\<rparr> =
     (Inr (), (aws_huffman_encoder_init abc_coder)\<lparr>eos_padding := 0xF0\<rparr>, [],
      \<lparr>buffer = [0x70], capacity = 4\<rparr>) \<and>
   code_bits (encode abc_coder 0x41) @ eos_high_order_bits 7 0xF0 = stream_bits [0x78] \<and>
   stream_bits [0x70] \<noteq> code_bits (encode abc_coder 0x41) @ eos_high_order_bits 7 0xF0"
proof -
  have a: "code_bits (encode abc_coder 0x41) @ eos_high_order_bits 7 0xF0 = stream_bits [0x78]"
    by (simp add: code_bits_def abc_encode_def eos_high_order_bits_def word_bits_def
          stream_bits_def upt_rec)
  have "(0x70 :: 8 word) \<noteq> 0x78" by simp
  then have "stream_bits [0x70] \<noteq> stream_bits [0x78]"
    using stream_bits_inj[of "[0x70]" "[0x78]"] by auto
  with a abc_encode_A_eos_F0 show ?thesis by simp
qed

subsection \<open>Encoder: unknown symbol\<close>

text \<open>
  Claim C4, amended.  Let the symbols \<open>pre\<close> before \<open>x\<close> all have codes, let the coder
  return \<^verbatim>\<open>num_bits == 0\<close> for \<open>x\<close>, and let the buffer be large enough for the call to
  reach \<open>x\<close> (the pending overflow bits and the codes of \<open>pre\<close> fill fewer whole bytes
  than the free capacity).  Then the call fails with unknown-symbol, the cursor stands
  behind \<open>x\<close>, and the output buffer has gained exactly the complete bytes of the bits
  packed so far: the first \<open>8 * (n div 8)\<close> of the \<open>n\<close> pending bits.  These bytes are
  not rolled back.  The last \<open>n mod 8\<close> bits are not in the buffer: they sit in the local
  \<^verbatim>\<open>working\<close> byte of the call, which is dropped on this return path.
\<close>

theorem encode_unknown_symbol:
  assumes "num_bits (encode (coder enc) x) = 0"
      and "\<forall>s \<in> set pre. num_bits (encode (coder enc) s) \<noteq> 0 \<and>
                        unat (num_bits (encode (coder enc) s)) \<le> 32"
      and "unat (num_bits (overflow_bits enc)) \<le> 32"
      and "length (buffer out) + length (pending_bits enc pre) div 8 < capacity out"
    shows "\<exists>enc' bytes.
             aws_huffman_encode enc (pre @ x # post) out =
               (Inl AWS_ERROR_COMPRESSION_UNKNOWN_SYMBOL, enc', post,
                out\<lparr>buffer := buffer out @ bytes\<rparr>) \<and>
             stream_bits bytes =
               take (8 * (length (pending_bits enc pre) div 8)) (pending_bits enc pre) \<and>
             coder enc' = coder enc \<and> eos_padding enc' = eos_padding enc \<and>
             num_bits (overflow_bits enc') = 0"
proof -
  have ok: "codes_ok (coder enc) pre" using assms(2) by (simp add: codes_ok_def)
  define st0 where "st0 = \<lparr>encoder = enc, output_buf = out, working = 0, bit_pos = 8\<rparr>"
  from encode_reaches[OF ok assms(3,4) st0_def]
  obtain st1 st2 zs where o: "aws_huffman_encode_overflow st0 = (Inr (), st1)"
    and l: "aws_huffman_encode_loop st1 pre = (Inr (), st2, [])"
    and cd: "coder (encoder st2) = coder enc" and ep: "eos_padding (encoder st2) = eos_padding enc"
    and z: "num_bits (overflow_bits (encoder st2)) = 0"
    and cap: "capacity (output_buf st2) = capacity out"
    and buf: "buffer (output_buf st2) = buffer out @ zs"
    and tk: "stream_bits zs = take (8 * (length (pending_bits enc pre) div 8)) (pending_bits enc pre)"
    by blast
  have ob: "output_buf st2 = out\<lparr>buffer := buffer out @ zs\<rparr>"
    using cap buf by simp
  have "aws_huffman_encode_loop st1 (pre @ x # post) =
          (Inl AWS_ERROR_COMPRESSION_UNKNOWN_SYMBOL, st2, post)"
    using l assms(1) cd
    by (simp add: encode_loop_append Let_def write_bit_pattern_unknown)
  moreover have "length (buffer out) \<noteq> capacity out" using assms(4) by simp
  ultimately have "aws_huffman_encode enc (pre @ x # post) out =
               (Inl AWS_ERROR_COMPRESSION_UNKNOWN_SYMBOL, encoder st2, post,
                out\<lparr>buffer := buffer out @ zs\<rparr>)"
    using o ob by (simp add: aws_huffman_encode_def st0_def[symmetric] Let_def)
  with tk cd ep z show ?thesis by blast
qed

text \<open>
  Witness for C4: four two-bit codes and a one-bit code, then the unknown symbol
  \<^verbatim>\<open>0xFF\<close>.  The byte \<^verbatim>\<open>0xAA\<close> of the first eight bits is committed, the ninth bit is not.
\<close>

theorem encode_unknown_symbol_witness:
  "aws_huffman_encode (aws_huffman_encoder_init abc_coder) [0x42, 0x42, 0x42, 0x42, 0x41, 0xFF]
       \<lparr>buffer = [], capacity = 4\<rparr> =
     (Inl AWS_ERROR_COMPRESSION_UNKNOWN_SYMBOL, aws_huffman_encoder_init abc_coder, [],
      \<lparr>buffer = [0xAA], capacity = 4\<rparr>) \<and>
   length (pending_bits (aws_huffman_encoder_init abc_coder) [0x42, 0x42, 0x42, 0x42, 0x41]) = 9 \<and>
   stream_bits [0xAA] =
     take 8 (pending_bits (aws_huffman_encoder_init abc_coder) [0x42, 0x42, 0x42, 0x42, 0x41])"
proof -
  let ?E = "aws_huffman_encoder_init abc_coder"
  let ?pre = "[0x42, 0x42, 0x42, 0x42, 0x41 :: 8 word]"
  let ?out = "\<lparr>buffer = [] :: 8 word list, capacity = 4\<rparr>"
  have h1: "num_bits (encode (coder ?E) 0xFF) = 0"
    by (simp add: aws_huffman_encoder_init_def abc_encode_def)
  have h2: "\<forall>s \<in> set ?pre.
              num_bits (encode (coder ?E) s) \<noteq> 0 \<and> unat (num_bits (encode (coder ?E) s)) \<le> 32"
    by (simp add: aws_huffman_encoder_init_def abc_encode_def)
  have h3: "unat (num_bits (overflow_bits ?E)) \<le> 32"
    by (simp add: aws_huffman_encoder_init_def)
  have n: "length (pending_bits ?E ?pre) = 9"
    by (simp add: pending_bits_def aws_huffman_encoder_init_def abc_encode_def)
  have h4: "length (buffer ?out) + length (pending_bits ?E ?pre) div 8 < capacity ?out"
    by (simp add: n)
  from encode_unknown_symbol[OF h1 h2 h3 h4, of "[]"] abc_encode_BBBBA_FF n
  show ?thesis by auto
qed

text \<open>
  Counterexample to C4 as stated, the example of the claim: encoding \<^verbatim>\<open>[0x41, 0xFF]\<close>
  with a table that has a one-bit code for \<^verbatim>\<open>0x41\<close> and none for \<^verbatim>\<open>0xFF\<close> returns
  unknown-symbol with an empty output buffer.  The bit packed for \<^verbatim>\<open>0x41\<close> is not
  committed.
\<close>

theorem encode_unknown_symbol_counterexample:
  "aws_huffman_encode (aws_huffman_encoder_init abc_coder) [0x41, 0xFF]
       \<lparr>buffer = [], capacity = 4\<rparr> =
     (Inl AWS_ERROR_COMPRESSION_UNKNOWN_SYMBOL, aws_huffman_encoder_init abc_coder, [],
      \<lparr>buffer = [], capacity = 4\<rparr>) \<and>
   length (code_bits (encode abc_coder 0x41)) = 1 \<and>
   num_bits (encode abc_coder 0xFF) = 0"
  using abc_encode_A_FF by (simp add: abc_encode_def)

subsection \<open>Encoder: success and short-buffer\<close>

text \<open>
  Claim C5, amended.  Let every symbol have a code.  If the pending overflow bits and
  the codes of all symbols fill fewer whole bytes than the free capacity of the output
  buffer, the call consumes the whole input and returns success (the byte completed by
  the end-of-stream padding may be the last one that fits).  A call that returns
  short-buffer leaves the output buffer full; it never returns unknown-symbol.  The
  claim as stated fails at the entry guard: a buffer that is already full makes the call
  return short-buffer at once, with no code in flight and, for an empty input, with all
  input consumed and nothing to write.
\<close>

theorem encode_success_and_short_buffer:
  assumes "\<forall>s \<in> set seq. num_bits (encode (coder enc) s) \<noteq> 0 \<and>
                        unat (num_bits (encode (coder enc) s)) \<le> 32"
      and "unat (num_bits (overflow_bits enc)) \<le> 32"
      and "length (buffer out) \<le> capacity out"
      and "aws_huffman_encode enc seq out = (r, enc', rest, out')"
    shows "(length (buffer out) + length (pending_bits enc seq) div 8 < capacity out \<longrightarrow>
              r = Inr () \<and> rest = []) \<and>
           (r = Inl AWS_ERROR_SHORT_BUFFER \<longrightarrow> length (buffer out') = capacity out') \<and>
           r \<noteq> Inl AWS_ERROR_COMPRESSION_UNKNOWN_SYMBOL"
proof -
  have ok: "codes_ok (coder enc) seq" using assms(1) by (simp add: codes_ok_def)
  from encode_call_spec[OF ok assms(2,3)] assms(4)
  have cp: "call_post enc seq out (r, enc', rest, out')" by simp
  show ?thesis
  proof (cases r)
    case (Inr u)
    with cp show ?thesis by (simp add: call_post_def)
  next
    case (Inl e)
    with cp obtain bytes where e: "e = AWS_ERROR_SHORT_BUFFER"
      and full: "length (buffer out') = capacity out'" and cap: "capacity out' = capacity out"
      and b: "buffer out' = buffer out @ bytes"
      and s: "stream_bits bytes @ pending_bits enc' rest = pending_bits enc seq"
      by (auto simp: call_post_def)
    from arg_cong[OF s, of length] have "8 * length bytes \<le> length (pending_bits enc seq)" by simp
    then have "length bytes \<le> length (pending_bits enc seq) div 8" by simp
    with b full cap have "\<not> length (buffer out) + length (pending_bits enc seq) div 8 < capacity out"
      by simp
    with Inl e full show ?thesis by simp
  qed
qed

text \<open>
  Witness for C5: four bits of codes fit into a buffer of four bytes; the call returns
  success with the cursor drained.
\<close>

theorem encode_success_and_short_buffer_witness:
  "length (buffer \<lparr>buffer = [] :: 8 word list, capacity = 4\<rparr>) +
     length (pending_bits (aws_huffman_encoder_init abc_coder) [0x41, 0x41, 0x42]) div 8 <
     capacity \<lparr>buffer = [] :: 8 word list, capacity = 4\<rparr> \<and>
   aws_huffman_encode (aws_huffman_encoder_init abc_coder) [0x41, 0x41, 0x42]
       \<lparr>buffer = [], capacity = 4\<rparr> =
     (Inr (), aws_huffman_encoder_init abc_coder, [], \<lparr>buffer = [0x2F], capacity = 4\<rparr>)"
proof -
  let ?E = "aws_huffman_encoder_init abc_coder"
  have h1: "\<forall>s \<in> set [0x41, 0x41, 0x42 :: 8 word].
              num_bits (encode (coder ?E) s) \<noteq> 0 \<and> unat (num_bits (encode (coder ?E) s)) \<le> 32"
    by (simp add: aws_huffman_encoder_init_def abc_encode_def)
  have h2: "unat (num_bits (overflow_bits ?E)) \<le> 32"
    by (simp add: aws_huffman_encoder_init_def)
  have h3: "length (buffer \<lparr>buffer = [] :: 8 word list, capacity = 4\<rparr>) \<le>
              capacity \<lparr>buffer = [] :: 8 word list, capacity = 4\<rparr>" by simp
  have n: "length (pending_bits ?E [0x41, 0x41, 0x42]) = 4"
    by (simp add: pending_bits_def aws_huffman_encoder_init_def abc_encode_def)
  from encode_success_and_short_buffer[OF h1 h2 h3 abc_encode_AAB] n abc_encode_AAB
  show ?thesis by simp
qed

text \<open>
  Counterexample to C5 as stated: with a full output buffer the call returns
  short-buffer although no bits of any code are unwritten (the overflow is empty and the
  symbol has not been read); with an empty input it returns short-buffer although all
  input is consumed and there is nothing to write.
\<close>

theorem encode_short_buffer_counterexample:
  "aws_huffman_encode (aws_huffman_encoder_init abc_coder) [0x41]
       \<lparr>buffer = [0], capacity = 1\<rparr> =
     (Inl AWS_ERROR_SHORT_BUFFER, aws_huffman_encoder_init abc_coder, [0x41],
      \<lparr>buffer = [0], capacity = 1\<rparr>) \<and>
   num_bits (overflow_bits (aws_huffman_encoder_init abc_coder)) = 0 \<and>
   aws_huffman_encode (aws_huffman_encoder_init abc_coder) []
       \<lparr>buffer = [0], capacity = 1\<rparr> =
     (Inl AWS_ERROR_SHORT_BUFFER, aws_huffman_encoder_init abc_coder, [],
      \<lparr>buffer = [0], capacity = 1\<rparr>)"
  by (simp add: aws_huffman_encode_def aws_huffman_encoder_init_def)

subsection \<open>Round trip\<close>

text \<open>
  Claim C1.  The coder forms a deterministic prefix code on the symbols of \<open>seq\<close>
  (\<open>prefix_code_for\<close>: every code has 1 to 32 bits, and every 32-bit window that begins
  with the code of a symbol decodes to that symbol with the code's bit count).  Let
  \<open>aws_huffman_encode\<close> on a fresh encoder (any \<^verbatim>\<open>eos_padding\<close>) encode \<open>seq\<close> into an empty
  buffer large enough for the call to succeed, and let \<open>aws_huffman_decode\<close> on a fresh
  decoder decode the produced bytes.  \<open>aws_huffman_decode\<close> has no parameter for a number
  of bits: its budget is 8 times the number of bytes, so the caller stops it at the end
  of the meaningful bits from outside, by the capacity of the output buffer.  With the
  capacity equal to the number of symbols the decoded output is exactly \<open>seq\<close>, and the
  call does not fail with unknown-symbol (it returns success, or short-buffer when the
  padding bits themselves match a code).  With a larger capacity the output begins with
  \<open>seq\<close>.  The loop of \<open>aws_huffman_decode\<close> itself, run with the number of code bits as
  its budget, emits exactly \<open>seq\<close> and returns success for every capacity that holds
  \<open>seq\<close>.
\<close>

theorem huffman_round_trip:
  assumes "\<forall>s \<in> set seq. prefix_code_for c s"
      and "aws_huffman_encode ((aws_huffman_encoder_init c)\<lparr>eos_padding := eos\<rparr>) seq
             \<lparr>buffer = [], capacity = cap\<rparr> = (Inr (), enc', rest, out)"
    shows "(\<exists>r d' rest'.
              aws_huffman_decode (aws_huffman_decoder_init c) (buffer out)
                  \<lparr>buffer = [], capacity = length seq\<rparr> =
                (r, d', rest', \<lparr>buffer = seq, capacity = length seq\<rparr>) \<and>
              r \<noteq> Inl AWS_ERROR_COMPRESSION_UNKNOWN_SYMBOL) \<and>
           (\<forall>n. length seq \<le> n \<longrightarrow>
              (\<exists>r d' rest' extra.
                 aws_huffman_decode (aws_huffman_decoder_init c) (buffer out)
                     \<lparr>buffer = [], capacity = n\<rparr> =
                   (r, d', rest', \<lparr>buffer = seq @ extra, capacity = n\<rparr>) \<and>
                 length (seq @ extra) \<le> n \<and>
                 r \<noteq> Inl AWS_ERROR_COMPRESSION_UNKNOWN_SYMBOL)) \<and>
           (\<forall>n. length seq \<le> n \<longrightarrow>
              (\<exists>d' rest'.
                 aws_huffman_decode_loop (aws_huffman_decoder_init c) (buffer out)
                     \<lparr>buffer = [], capacity = n\<rparr> (length (seq_bits c seq)) =
                   (Inr (), d', rest', \<lparr>buffer = seq, capacity = n\<rparr>)))"
proof -
  let ?d = "aws_huffman_decoder_init c"
  let ?bytes = "buffer out"
  let ?k = "eos_pad_len (length (seq_bits c seq))"
  note bits = fresh_encode_bits[OF assms]
  have len: "8 * length ?bytes = length (seq_bits c seq) + ?k"
    using arg_cong[OF bits, of length] by simp
  have general: "\<exists>r d' rest' extra.
                 aws_huffman_decode ?d ?bytes \<lparr>buffer = [], capacity = n\<rparr> =
                   (r, d', rest', \<lparr>buffer = seq @ extra, capacity = n\<rparr>) \<and>
                 length (seq @ extra) \<le> n \<and>
                 r \<noteq> Inl AWS_ERROR_COMPRESSION_UNKNOWN_SYMBOL" if n: "length seq \<le> n" for n
  proof (cases "n = 0")
    case True
    with n have "seq = []" by simp
    with True show ?thesis by (simp add: aws_huffman_decode_def)
  next
    case False
    let ?b = "8 * length ?bytes"
    have call: "aws_huffman_decode ?d ?bytes \<lparr>buffer = [], capacity = n\<rparr> =
                aws_huffman_decode_loop ?d ?bytes \<lparr>buffer = [], capacity = n\<rparr> ?b"
      using False by (simp add: aws_huffman_decode_def aws_huffman_decoder_init_def Let_def mult.commute)
    have b: "length (seq_bits c seq) \<le> ?b" using len by simp
    have b32: "?b - length (seq_bits c seq) < 32" using len eos_pad_len_lt8[of "length (seq_bits c seq)"]
      by simp
    from decode_stream[OF assms(1) bits n b] obtain r d' rest' extra where
      res: "aws_huffman_decode_loop ?d ?bytes \<lparr>buffer = [], capacity = n\<rparr> ?b =
             (r, d', rest', \<lparr>buffer = seq @ extra, capacity = n\<rparr>)"
      and l: "length (seq @ extra) \<le> n" by blast
    from decode_stream_result[OF assms(1) bits n b b32 res]
    have "r \<noteq> Inl AWS_ERROR_COMPRESSION_UNKNOWN_SYMBOL" .
    with res l call show ?thesis by auto
  qed
  from general[of "length seq"] have exact: "\<exists>r d' rest'.
              aws_huffman_decode ?d ?bytes \<lparr>buffer = [], capacity = length seq\<rparr> =
                (r, d', rest', \<lparr>buffer = seq, capacity = length seq\<rparr>) \<and>
              r \<noteq> Inl AWS_ERROR_COMPRESSION_UNKNOWN_SYMBOL"
    by auto
  have budget: "\<exists>d' rest'.
                 aws_huffman_decode_loop ?d ?bytes \<lparr>buffer = [], capacity = n\<rparr>
                     (length (seq_bits c seq)) =
                   (Inr (), d', rest', \<lparr>buffer = seq, capacity = n\<rparr>)" if n: "length seq \<le> n" for n
    using decode_stream[OF assms(1) bits n order_refl] by auto
  from exact general budget show ?thesis by blast
qed

text \<open>
  Witness for C1: \<^verbatim>\<open>0x41 0x41 0x42\<close> is encoded by \<open>abc_coder\<close> as the byte \<^verbatim>\<open>0x2F\<close>, which
  decodes to the same three symbols.
\<close>

theorem huffman_round_trip_witness:
  "aws_huffman_encode (aws_huffman_encoder_init abc_coder) [0x41, 0x41, 0x42]
       \<lparr>buffer = [], capacity = 4\<rparr> =
     (Inr (), aws_huffman_encoder_init abc_coder, [], \<lparr>buffer = [0x2F], capacity = 4\<rparr>) \<and>
   aws_huffman_decode (aws_huffman_decoder_init abc_coder) [0x2F] \<lparr>buffer = [], capacity = 3\<rparr> =
     (Inr (), \<lparr>coder_d = abc_coder, working_bits = 0xF000000000000000, num_bits_d = 4\<rparr>, [],
      \<lparr>buffer = [0x41, 0x41, 0x42], capacity = 3\<rparr>) \<and>
   aws_huffman_decode_loop (aws_huffman_decoder_init abc_coder) [0x2F]
       \<lparr>buffer = [], capacity = 4\<rparr> 4 =
     (Inr (), \<lparr>coder_d = abc_coder, working_bits = 0xF000000000000000, num_bits_d = 4\<rparr>, [],
      \<lparr>buffer = [0x41, 0x41, 0x42], capacity = 4\<rparr>)"
proof -
  have h1: "\<forall>s \<in> set [0x41, 0x41, 0x42 :: 8 word]. prefix_code_for abc_coder s"
    by (simp add: abc_prefix_code)
  have e: "(aws_huffman_encoder_init abc_coder)\<lparr>eos_padding := 255\<rparr> =
           aws_huffman_encoder_init abc_coder"
    by (simp add: aws_huffman_encoder_init_def)
  have h2: "aws_huffman_encode ((aws_huffman_encoder_init abc_coder)\<lparr>eos_padding := 255\<rparr>)
              [0x41, 0x41, 0x42] \<lparr>buffer = [], capacity = 4\<rparr> =
            (Inr (), aws_huffman_encoder_init abc_coder, [], \<lparr>buffer = [0x2F], capacity = 4\<rparr>)"
    using abc_encode_AAB by (simp only: e)
  from huffman_round_trip[OF h1 h2]
  have "\<exists>r d' rest'.
          aws_huffman_decode (aws_huffman_decoder_init abc_coder)
              (buffer \<lparr>buffer = [0x2F], capacity = 4\<rparr>)
              \<lparr>buffer = [], capacity = length [0x41, 0x41, 0x42 :: 8 word]\<rparr> =
            (r, d', rest',
             \<lparr>buffer = [0x41, 0x41, 0x42], capacity = length [0x41, 0x41, 0x42 :: 8 word]\<rparr>) \<and>
          r \<noteq> Inl AWS_ERROR_COMPRESSION_UNKNOWN_SYMBOL"
    by blast
  with abc_encode_AAB abc_decode_2F_3 abc_decode_loop_2F_budget4 show ?thesis by simp
qed

subsection \<open>Decoder: codes that run past the budget, and padding\<close>




subsection \<open>Splitting the work across calls\<close>

text \<open>
  Claim C2.  Encoder: let every symbol of \<open>seq\<close> have a code of 1 to 32 bits and let one call
  of \<open>aws_huffman_encode\<close> on a fresh encoder (any \<^verbatim>\<open>eos_padding\<close>) with an empty buffer
  of capacity \<open>cap\<close> succeed.  Then every run of \<open>encode_resume\<close>, which calls
  \<open>aws_huffman_encode\<close> with a fresh buffer of each capacity of \<open>caps\<close> in turn and resumes
  after each short-buffer, that completes has produced the same bytes; and it does
  complete when all capacities are positive and there are more of them than whole bytes
  of code bits.  Decoder: let the result of the coder's \<^verbatim>\<open>decode\<close> be determined by the
  bits it reports as read (\<open>decode_determined\<close>: at most 32 bits, and a window that agrees
  on them gives the same result).  Then \<open>decode_chunks\<close>, which calls \<open>aws_huffman_decode\<close>
  on the chunks one after the other until one fails, leaves the same output buffer as one
  call on the concatenation, and the same return code whenever that buffer is not full.
  (With a full buffer the codes can differ: a later chunk is refused by the entry guard
  with short-buffer, where the single call has returned success on padding bits that
  match no code.)
\<close>

theorem split_calls_equivalence:
  "(codes_ok c seq \<and>
    aws_huffman_encode ((aws_huffman_encoder_init c)\<lparr>eos_padding := eos\<rparr>) seq
        \<lparr>buffer = [], capacity = cap\<rparr> = (Inr (), enc', rest, out) \<longrightarrow>
      (\<forall>caps bytes.
         encode_resume ((aws_huffman_encoder_init c)\<lparr>eos_padding := eos\<rparr>) seq caps = Some bytes \<longrightarrow>
         bytes = buffer out) \<and>
      (\<forall>caps.
         (\<forall>n \<in> set caps. 0 < n) \<and> length (seq_bits c seq) div 8 < length caps \<longrightarrow>
         encode_resume ((aws_huffman_encoder_init c)\<lparr>eos_padding := eos\<rparr>) seq caps =
           Some (buffer out))) \<and>
   (decode_determined c \<and> length (buffer out0) \<le> capacity out0 \<and>
    aws_huffman_decode (aws_huffman_decoder_init c) (concat chunks) out0 = (r, d', rest', out1) \<and>
    decode_chunks (aws_huffman_decoder_init c) chunks out0 = (r2, d2, out2) \<longrightarrow>
      out2 = out1 \<and> (length (buffer out1) < capacity out1 \<longrightarrow> r2 = r))"
proof (intro conjI impI allI)
  fix caps :: "nat list" and bytes
  assume a: "codes_ok c seq \<and>
    aws_huffman_encode ((aws_huffman_encoder_init c)\<lparr>eos_padding := eos\<rparr>) seq
        \<lparr>buffer = [], capacity = cap\<rparr> = (Inr (), enc', rest, out)"
    and res: "encode_resume ((aws_huffman_encoder_init c)\<lparr>eos_padding := eos\<rparr>) seq caps = Some bytes"
  from a have ok: "codes_ok c seq"
    and enc: "aws_huffman_encode ((aws_huffman_encoder_init c)\<lparr>eos_padding := eos\<rparr>) seq
                \<lparr>buffer = [], capacity = cap\<rparr> = (Inr (), enc', rest, out)"
    by simp_all
  from fresh_encode_bits_ok[OF ok enc] fresh_encode_resume(1)[OF ok res]
  have "stream_bits bytes = stream_bits (buffer out)" by simp
  then show "bytes = buffer out" by (rule stream_bits_inj)
next
  fix caps :: "nat list"
  assume a: "codes_ok c seq \<and>
    aws_huffman_encode ((aws_huffman_encoder_init c)\<lparr>eos_padding := eos\<rparr>) seq
        \<lparr>buffer = [], capacity = cap\<rparr> = (Inr (), enc', rest, out)"
    and b: "(\<forall>n \<in> set caps. 0 < n) \<and> length (seq_bits c seq) div 8 < length caps"
  from a have ok: "codes_ok c seq"
    and enc: "aws_huffman_encode ((aws_huffman_encoder_init c)\<lparr>eos_padding := eos\<rparr>) seq
                \<lparr>buffer = [], capacity = cap\<rparr> = (Inr (), enc', rest, out)"
    by simp_all
  from b fresh_encode_resume(2)[OF ok, of caps eos] obtain bytes where
    res: "encode_resume ((aws_huffman_encoder_init c)\<lparr>eos_padding := eos\<rparr>) seq caps = Some bytes"
    by blast
  from fresh_encode_bits_ok[OF ok enc] fresh_encode_resume(1)[OF ok res]
  have "stream_bits bytes = stream_bits (buffer out)" by simp
  then have "bytes = buffer out" by (rule stream_bits_inj)
  with res show "encode_resume ((aws_huffman_encoder_init c)\<lparr>eos_padding := eos\<rparr>) seq caps =
           Some (buffer out)" by simp
next
  assume a: "decode_determined c \<and> length (buffer out0) \<le> capacity out0 \<and>
    aws_huffman_decode (aws_huffman_decoder_init c) (concat chunks) out0 = (r, d', rest', out1) \<and>
    decode_chunks (aws_huffman_decoder_init c) chunks out0 = (r2, d2, out2)"
  then have det: "decode_determined c" and wf: "length (buffer out0) \<le> capacity out0"
    and one: "aws_huffman_decode (aws_huffman_decoder_init c) (concat chunks) out0 = (r, d', rest', out1)"
    and many: "decode_chunks (aws_huffman_decoder_init c) chunks out0 = (r2, d2, out2)"
    by simp_all
  from decode_chunks_one_call[OF det wf one many] show "out2 = out1" by simp
  assume "length (buffer out1) < capacity out1"
  with decode_chunks_one_call[OF det wf one many] show "r2 = r" by simp
qed

text \<open>
  Witness for C2 with \<open>abc_coder\<close>.  The codes of \<^verbatim>\<open>0x42 0x42 0x42 0x42 0x41\<close> are
  \<^verbatim>\<open>10101010 0\<close>; with \<^verbatim>\<open>eos_padding = 0xF0\<close> one call gives \<^verbatim>\<open>0xAA 0x70\<close>, and so do two
  calls with buffers of one byte.  The bytes \<^verbatim>\<open>0x55 0x7F\<close> decode to \<^verbatim>\<open>0x41 0x42 0x42 0x42 0x42\<close>
  in one call and in two chunks, where the last code \<^verbatim>\<open>10\<close> straddles the chunk boundary.
\<close>

theorem split_calls_equivalence_witness:
  "aws_huffman_encode ((aws_huffman_encoder_init abc_coder)\<lparr>eos_padding := 0xF0\<rparr>)
       [0x42, 0x42, 0x42, 0x42, 0x41] \<lparr>buffer = [], capacity = 4\<rparr> =
     (Inr (), (aws_huffman_encoder_init abc_coder)\<lparr>eos_padding := 0xF0\<rparr>, [],
      \<lparr>buffer = [0xAA, 0x70], capacity = 4\<rparr>) \<and>
   encode_resume ((aws_huffman_encoder_init abc_coder)\<lparr>eos_padding := 0xF0\<rparr>)
       [0x42, 0x42, 0x42, 0x42, 0x41] [1, 1] = Some [0xAA, 0x70] \<and>
   aws_huffman_decode (aws_huffman_decoder_init abc_coder) [0x55, 0x7F]
       \<lparr>buffer = [], capacity = 8\<rparr> =
     (Inr (), \<lparr>coder_d = abc_coder, working_bits = 0xFE00000000000000, num_bits_d = 7\<rparr>, [],
      \<lparr>buffer = [0x41, 0x42, 0x42, 0x42, 0x42], capacity = 8\<rparr>) \<and>
   fst (decode_chunks (aws_huffman_decoder_init abc_coder) [[0x55], [0x7F]]
          \<lparr>buffer = [], capacity = 8\<rparr>) = Inr () \<and>
   snd (snd (decode_chunks (aws_huffman_decoder_init abc_coder) [[0x55], [0x7F]]
          \<lparr>buffer = [], capacity = 8\<rparr>)) =
     \<lparr>buffer = [0x41, 0x42, 0x42, 0x42, 0x42], capacity = 8\<rparr>"
proof -
  let ?E = "(aws_huffman_encoder_init abc_coder)\<lparr>eos_padding := 0xF0\<rparr>"
  let ?seq = "[0x42, 0x42, 0x42, 0x42, 0x41] :: 8 word list"
  let ?D = "\<lparr>coder_d = abc_coder, working_bits = 0xFE00000000000000, num_bits_d = 7\<rparr>"
  let ?o1 = "\<lparr>buffer = [0x41, 0x42, 0x42, 0x42, 0x42], capacity = 8\<rparr>"
  obtain r2 d2 out2 where many:
    "decode_chunks (aws_huffman_decoder_init abc_coder) [[0x55], [0x7F]]
       \<lparr>buffer = [], capacity = 8\<rparr> = (r2, d2, out2)"
    by (cases "decode_chunks (aws_huffman_decoder_init abc_coder) [[0x55], [0x7F]]
                 \<lparr>buffer = [], capacity = 8\<rparr>")
  note t = split_calls_equivalence[where c = abc_coder and seq = ?seq and eos = "0xF0" and cap = 4
             and enc' = ?E and rest = "[]" and out = "\<lparr>buffer = [0xAA, 0x70], capacity = 4\<rparr>"
             and ?out0.0 = "\<lparr>buffer = [], capacity = 8\<rparr>" and chunks = "[[0x55], [0x7F]]"
             and r = "Inr ()" and d' = ?D and rest' = "[]" and ?out1.0 = ?o1
             and ?r2.0 = r2 and ?d2.0 = d2 and ?out2.0 = out2]
  have ok: "codes_ok abc_coder ?seq" by (simp add: codes_ok_def abc_encode_def)
  have caps: "(\<forall>n \<in> set [1, 1 :: nat]. 0 < n) \<and> length (seq_bits abc_coder ?seq) div 8 < length [1, 1 :: nat]"
    by (simp add: code_bits_def abc_encode_def)
  have one: "aws_huffman_decode (aws_huffman_decoder_init abc_coder) (concat [[0x55], [0x7F]])
               \<lparr>buffer = [], capacity = 8\<rparr> = (Inr (), ?D, [], ?o1)"
    using abc_decode_55_7F by simp
  from t ok abc_encode_BBBBA_F0 caps
  have e: "encode_resume ?E ?seq [1, 1] = Some (buffer \<lparr>buffer = [0xAA, 0x70], capacity = 4\<rparr>)"
    by blast
  from t abc_determined one many
  have d: "out2 = ?o1 \<and> (length (buffer ?o1) < capacity ?o1 \<longrightarrow> r2 = Inr ())"
    by simp
  from e d many abc_encode_BBBBA_F0 abc_decode_55_7F show ?thesis by simp
qed

text \<open>
  The decoder half of C2 needs the hypothesis on the coder.  \<open>lookahead_coder\<close> reads
  \<^verbatim>\<open>0\<close> as \<^verbatim>\<open>0x42\<close>, \<^verbatim>\<open>11\<close> as \<^verbatim>\<open>0x43\<close> and a \<^verbatim>\<open>1\<close> followed by \<^verbatim>\<open>0\<close> as \<^verbatim>\<open>0x41\<close> (one bit read).
  In the bytes \<^verbatim>\<open>0x01 0x80\<close> the two 1 bits meet at the byte boundary: one call decodes
  them as one \<^verbatim>\<open>0x43\<close>; split after the first byte, the first call sees the 1 followed
  by zero fill and emits \<^verbatim>\<open>0x41\<close>, and so does the second call.
\<close>

theorem decode_chunks_lookahead_counterexample:
  "aws_huffman_decode (aws_huffman_decoder_init lookahead_coder) (concat [[0x01], [0x80]])
       \<lparr>buffer = [], capacity = 16\<rparr> =
     (Inr (), \<lparr>coder_d = lookahead_coder, working_bits = 0, num_bits_d = 0\<rparr>, [],
      \<lparr>buffer = [0x42, 0x42, 0x42, 0x42, 0x42, 0x42, 0x42, 0x43,
                 0x42, 0x42, 0x42, 0x42, 0x42, 0x42, 0x42], capacity = 16\<rparr>) \<and>
   decode_chunks (aws_huffman_decoder_init lookahead_coder) [[0x01], [0x80]]
       \<lparr>buffer = [], capacity = 16\<rparr> =
     (Inr (), \<lparr>coder_d = lookahead_coder, working_bits = 0, num_bits_d = 0\<rparr>,
      \<lparr>buffer = [0x42, 0x42, 0x42, 0x42, 0x42, 0x42, 0x42, 0x41,
                 0x41, 0x42, 0x42, 0x42, 0x42, 0x42, 0x42, 0x42], capacity = 16\<rparr>)"
  by (simp add: decode_eval_simps lookahead_decode_def)

end
